theory Spec2Isabelle
  imports Complex_Main
begin

section \<open>JavaScript strings\<close>

text \<open>
  A JavaScript string is modelled as a \<open>string\<close>: a list of code units, whose \<open>length\<close>
  is what \<open>.length\<close> counts. The white space of \<open>String.prototype.trim\<close> and of the
  regular expression class \<open>\s\<close> is the same set; its members below U+0100 are tab, line
  feed, vertical tab, form feed, carriage return, space and no-break space.
\<close>

definition isWhitespace :: "char \<Rightarrow> bool" where
  "isWhitespace c \<longleftrightarrow> c \<in> set [CHR 0x09, CHR 0x0A, CHR 0x0B, CHR 0x0C, CHR 0x0D, CHR 0x20, CHR 0xA0]"

text \<open>\<open>s.trim()\<close>\<close>

definition trim :: "string \<Rightarrow> string" where
  "trim s = rev (dropWhile isWhitespace (rev (dropWhile isWhitespace s)))"

text \<open>\<open>s.replace(/\s+/g, ' ')\<close>: every maximal run of white space becomes one space.\<close>

function collapseWhitespace :: "string \<Rightarrow> string" where
  "collapseWhitespace [] = []"
| "collapseWhitespace (c # cs) =
     (if isWhitespace c then CHR '' '' # collapseWhitespace (dropWhile isWhitespace cs)
      else c # collapseWhitespace cs)"
  by pat_completeness auto
termination
  by (relation "measure length") (auto simp: less_Suc_eq_le length_dropWhile_le)

text \<open>
  \<open>s.slice(b, e)\<close>: a negative index counts from the end, both indices are clamped to
  the string, and the result is empty when the end does not lie after the start.
\<close>

definition js_slice :: "string \<Rightarrow> int \<Rightarrow> int \<Rightarrow> string" where
  "js_slice s b e =
     (let n = int (length s);
          from = (if b < 0 then max (n + b) 0 else min b n);
          to = (if e < 0 then max (n + e) 0 else min e n)
      in take (nat (to - from)) (drop (nat from) s))"

text \<open>
  \<open>s.split(sep)\<close> for a separator string: the pieces between the successive
  occurrences of \<open>sep\<close>, found from the left without overlap. The empty separator splits
  into code units. \<open>cur\<close> holds the piece being read, reversed.
\<close>

function splitFrom :: "string \<Rightarrow> string \<Rightarrow> string \<Rightarrow> string list" where
  "splitFrom sep cur [] = [rev cur]"
| "splitFrom sep cur (c # cs) =
     (if sep \<noteq> [] \<and> take (length sep) (c # cs) = sep
      then rev cur # splitFrom sep [] (drop (length sep) (c # cs))
      else splitFrom sep (c # cur) cs)"
  by pat_completeness auto
termination
  by (relation "measure (\<lambda>(sep, cur, s). length s)") (auto simp: neq_Nil_conv)

definition js_split :: "string \<Rightarrow> string \<Rightarrow> string list" where
  "js_split s sep = (if sep = [] then map (\<lambda>c. [c]) s else splitFrom sep [] s)"

text \<open>\<open>xs.join(sep)\<close>\<close>

fun js_join :: "string \<Rightarrow> string list \<Rightarrow> string" where
  "js_join sep [] = []"
| "js_join sep [x] = x"
| "js_join sep (x # y # ys) = x @ sep @ js_join sep (y # ys)"

section \<open>The structural splitter (src/ai/text-splitter.ts)\<close>

datatype error =
    ConfigError string
  | ProviderError string
  | TypeError string
  | SyntaxError string

record TextSplitterParams =
  chunkSize :: int
  chunkOverlap :: int
  separators :: "string list"

text \<open>
  The constructor of \<open>RecursiveCharacterTextSplitter\<close>: absent parameters take the defaults
  50, 10 and the list of eight separators; an overlap that is not below the size throws.
\<close>

definition defaultSeparators :: "string list" where
  "defaultSeparators =
     [[CHR 0x0A, CHR 0x0A], [CHR 0x0A], ''. '', ''.'', '', '', '','', '' '', '''']"

definition newRecursiveCharacterTextSplitter ::
  "int option \<Rightarrow> int option \<Rightarrow> string list option \<Rightarrow> error + TextSplitterParams" where
  "newRecursiveCharacterTextSplitter csize overlap seps =
     (let sp = \<lparr> chunkSize = (case csize of None \<Rightarrow> 50 | Some n \<Rightarrow> n),
                  chunkOverlap = (case overlap of None \<Rightarrow> 10 | Some n \<Rightarrow> n),
                  separators = (case seps of None \<Rightarrow> defaultSeparators | Some l \<Rightarrow> l) \<rparr>
      in if chunkOverlap sp \<ge> chunkSize sp
         then Inl (ConfigError ''Cannot have chunkOverlap >= chunkSize'')
         else Inr sp)"

text \<open>
  The hard cut: \<open>for (let i = 0; i < trimmed.length; i += step)\<close> with
  \<open>step = Math.max(1, target - chunkOverlap)\<close>, pushing every non-empty trimmed piece
  \<open>trimmed.slice(i, Math.min(i + target, trimmed.length))\<close>.
\<close>

function hardCut :: "int \<Rightarrow> int \<Rightarrow> string \<Rightarrow> int \<Rightarrow> string list" where
  "hardCut target overlap trimmed i =
     (if i < int (length trimmed)
      then (let piece = trim (js_slice trimmed i (min (i + target) (int (length trimmed))))
            in (if piece \<noteq> [] then [piece] else []) @
               hardCut target overlap trimmed (i + max 1 (target - overlap)))
      else [])"
  by pat_completeness auto
termination
  by (relation "measure (\<lambda>(target, overlap, trimmed, i). nat (int (length trimmed) - i))") auto

declare hardCut.simps [simp del]

text \<open>
  \<open>splitRecursive(t, sepIdx)\<close> returns the chunks it pushes, in the order it pushes them.
  \<open>mergeParts\<close> is its loop \<open>for (const part of parts)\<close> with the variable \<open>buffer\<close>,
  followed by the final push of a non-empty buffer.
\<close>

function splitRecursive :: "string list \<Rightarrow> int \<Rightarrow> int \<Rightarrow> string \<Rightarrow> nat \<Rightarrow> string list"
  and mergeParts :: "string list \<Rightarrow> int \<Rightarrow> int \<Rightarrow> nat \<Rightarrow> string \<Rightarrow> string list \<Rightarrow> string list"
where
  "splitRecursive seps target overlap t sepIdx =
     (let trimmed = trim t in
      if trimmed = [] then []
      else if int (length trimmed) \<le> target then [trimmed]
      else if sepIdx \<ge> length seps then hardCut target overlap trimmed 0
      else if seps ! sepIdx = [] then hardCut target overlap trimmed 0
      else mergeParts seps target overlap sepIdx []
             (filter (\<lambda>s. s \<noteq> []) (map trim (js_split trimmed (seps ! sepIdx)))))"
| "mergeParts seps target overlap sepIdx buffer [] = (if buffer \<noteq> [] then [buffer] else [])"
| "mergeParts seps target overlap sepIdx buffer (part # parts) =
     (let candidate = (if buffer \<noteq> [] then trim (buffer @ '' '' @ part) else part) in
      if int (length candidate) \<le> target
      then mergeParts seps target overlap sepIdx candidate parts
      else (if buffer \<noteq> [] then [buffer] else []) @
           (if int (length part) > target
            then splitRecursive seps target overlap part (Suc sepIdx) @
                 mergeParts seps target overlap sepIdx [] parts
            else mergeParts seps target overlap sepIdx part parts))"
  by pat_completeness auto
termination
  by (relation "measures
        [\<lambda>x. case x of
            Inl (seps, target, overlap, t, sepIdx) \<Rightarrow> 2 * (Suc (length seps) - sepIdx)
          | Inr (seps, target, overlap, sepIdx, buffer, parts) \<Rightarrow>
              2 * (Suc (length seps) - Suc sepIdx) + 1,
         \<lambda>x. case x of
            Inl (seps, target, overlap, t, sepIdx) \<Rightarrow> 0
          | Inr (seps, target, overlap, sepIdx, buffer, parts) \<Rightarrow> length parts]")
    auto

declare splitRecursive.simps [simp del]

text \<open>
  \<open>splitText(text)\<close>: nothing for the empty text; otherwise the chunks of
  \<open>splitRecursive(text, 0)\<close>, each with its white space runs collapsed and trimmed, the
  empty ones dropped.
\<close>

definition splitText :: "TextSplitterParams \<Rightarrow> string \<Rightarrow> string list" where
  "splitText sp text =
     (if text = [] then []
      else filter (\<lambda>c. c \<noteq> [])
             (map (\<lambda>c. trim (collapseWhitespace c))
                (splitRecursive (separators sp) (chunkSize sp) (chunkOverlap sp) text 0)))"


section \<open>The batch executor (runWithConcurrency in src/ai/providers.ts)\<close>

text \<open>
  The promise returned by \<open>runWithConcurrency\<close> is pending until the first call of
  \<open>resolve\<close> or \<open>reject\<close>; later calls change nothing.
\<close>

datatype ('e, 'r) settled = Pending | Resolved "'r option list" | Rejected 'e

definition settle :: "('e, 'r) settled \<Rightarrow> ('e, 'r) settled \<Rightarrow> ('e, 'r) settled" where
  "settle new old = (if old = Pending then new else old)"

text \<open>
  The variables of one call. \<open>results\<close> is \<open>new Array(items.length)\<close>: an index that was
  never assigned reads \<open>None\<close>. The source counts the workers in flight; the model keeps,
  for each of them, its index and the outcome its promise will settle with, so the counter
  \<open>inFlight\<close> of the source is the length of this list. \<open>index\<close> is the next item to start.
\<close>

record ('e, 'r) pool =
  results :: "'r option list"
  inFlight :: "(nat \<times> ('e + 'r)) list"
  index :: nat
  promise :: "('e, 'r) settled"

text \<open>
  The loop \<open>while (inFlight < limit && index < items.length)\<close> of \<open>next\<close>. An item that
  is \<open>undefined\<close> (\<open>None\<close>) is skipped; for any other the worker is called with the item
  and its index.
\<close>

function launchLoop ::
  "'a option list \<Rightarrow> int \<Rightarrow> ('a \<Rightarrow> nat \<Rightarrow> 'e + 'r) \<Rightarrow> ('e, 'r) pool \<Rightarrow> ('e, 'r) pool" where
  "launchLoop items limit worker st =
     (if int (length (inFlight st)) < limit \<and> index st < length items
      then (case items ! index st of
              None \<Rightarrow> launchLoop items limit worker (st\<lparr>index := Suc (index st)\<rparr>)
            | Some item \<Rightarrow>
                launchLoop items limit worker
                  (st\<lparr>index := Suc (index st),
                      inFlight := inFlight st @ [(index st, worker item (index st))]\<rparr>))
      else st)"
  by pat_completeness auto
termination
  by (relation "measure (\<lambda>(items, limit, worker, st). length items - index st)") auto

declare launchLoop.simps [simp del]

text \<open>The closure \<open>next\<close>: resolve when nothing is left and nothing runs, else start workers.\<close>

definition nextStep ::
  "'a option list \<Rightarrow> int \<Rightarrow> ('a \<Rightarrow> nat \<Rightarrow> 'e + 'r) \<Rightarrow> ('e, 'r) pool \<Rightarrow> ('e, 'r) pool" where
  "nextStep items limit worker st =
     (if index st \<ge> length items \<and> inFlight st = []
      then st\<lparr>promise := settle (Resolved (results st)) (promise st)\<rparr>
      else launchLoop items limit worker st)"

text \<open>
  The worker in flight at position \<open>k\<close> finishes: \<open>.then\<close> stores a result at the
  worker's index, \<open>.catch(reject)\<close> rejects the batch's promise with a failure, and
  \<open>.finally\<close> decrements the counter and calls \<open>next\<close>.
\<close>

definition complete ::
  "'a option list \<Rightarrow> int \<Rightarrow> ('a \<Rightarrow> nat \<Rightarrow> 'e + 'r) \<Rightarrow> nat \<Rightarrow> ('e, 'r) pool \<Rightarrow> ('e, 'r) pool" where
  "complete items limit worker k st =
     (case inFlight st ! k of
        (i, out) \<Rightarrow>
          (let st1 = (case out of
                        Inr res \<Rightarrow> st\<lparr>results := (results st)[i := Some res]\<rparr>
                      | Inl e \<Rightarrow> st\<lparr>promise := settle (Rejected e) (promise st)\<rparr>);
               st2 = st1\<lparr>inFlight := take k (inFlight st1) @ drop (Suc k) (inFlight st1)\<rparr>
           in nextStep items limit worker st2))"

text \<open>
  The order in which the running workers finish is not fixed by the code. A schedule is a
  list of numbers: each picks, among the workers in flight, the one that finishes next.
  \<open>drain\<close> runs the completions of a schedule, stopping early when no worker runs.
\<close>

fun drain ::
  "'a option list \<Rightarrow> int \<Rightarrow> ('a \<Rightarrow> nat \<Rightarrow> 'e + 'r) \<Rightarrow> nat list \<Rightarrow> ('e, 'r) pool \<Rightarrow> ('e, 'r) pool" where
  "drain items limit worker [] st = st"
| "drain items limit worker (k # ks) st =
     (if inFlight st = [] then st
      else drain items limit worker ks
             (complete items limit worker (k mod length (inFlight st)) st))"

definition initialPool :: "'a option list \<Rightarrow> ('e, 'r) pool" where
  "initialPool items =
     \<lparr>results = replicate (length items) None, inFlight = [], index = 0, promise = Pending\<rparr>"

text \<open>
  \<open>runWithConcurrency(items, limit, worker)\<close> under a schedule: the first call of \<open>next\<close>,
  then the completions. The state it ends in holds the promise and the results array.
\<close>

definition runWithConcurrency ::
  "'a option list \<Rightarrow> int \<Rightarrow> ('a \<Rightarrow> nat \<Rightarrow> 'e + 'r) \<Rightarrow> nat list \<Rightarrow> ('e, 'r) pool" where
  "runWithConcurrency items limit worker sched =
     drain items limit worker sched (nextStep items limit worker (initialPool items))"

text \<open>A sample worker: it fails on the item 2 and multiplies every other item by ten.\<close>

definition failOnTwo :: "nat \<Rightarrow> nat \<Rightarrow> string + nat" where
  "failOnTwo x i = (if x = 2 then Inl ''boom'' else Inr (10 * x))"

section \<open>The progress tracker (ProgressManager in src/progress-manager.ts)\<close>

record ResearchProgress =
  currentQuery :: "string option"
  currentDepth :: int
  totalDepth :: int
  currentBreadth :: int
  totalBreadth :: int
  totalQueries :: int
  completedQueries :: int





text \<open>
  The numbers of the estimate, from the oldest and the newest sample of the window.
  JavaScript computes them in double precision; the model computes with exact rationals.
  \<open>Math.round\<close> rounds to the nearest integer, a half upwards, as \<open>round\<close> does.
\<close>

definition dCompleted :: "(int \<times> int) list \<Rightarrow> int" where
  "dCompleted w = max 0 (snd (last w) - snd (hd w))"

definition dTimeSec :: "(int \<times> int) list \<Rightarrow> rat" where
  "dTimeSec w = max (1 / 1000) (of_int (fst (last w) - fst (hd w)) / 1000)"

definition rate :: "(int \<times> int) list \<Rightarrow> rat" where
  "rate w = of_int (dCompleted w) / dTimeSec w"









section \<open>The cache key of generateSerpQueries (src/deep-research.ts)\<close>

text \<open>
  The parameters of \<open>generateSerpQueries\<close> after the defaults of its signature have been
  filled in; \<open>initialQuery\<close> has no default and may be \<open>undefined\<close> (\<open>None\<close>).
\<close>

record SerpArgs =
  sa_query :: string
  sa_numQueries :: int
  sa_learnings :: "string list"
  sa_researchGoal :: string
  sa_initialQuery :: "string option"
  sa_depth :: int
  sa_breadth :: int

definition DEFAULT_NUM_QUERIES :: int where
  "DEFAULT_NUM_QUERIES = 3"

definition serpArgs ::
  "string \<Rightarrow> int option \<Rightarrow> string list option \<Rightarrow> string option \<Rightarrow> string option \<Rightarrow>
   int option \<Rightarrow> int option \<Rightarrow> SerpArgs" where
  "serpArgs q n ls goal iq d b =
     \<lparr>sa_query = q,
      sa_numQueries = (case n of None \<Rightarrow> DEFAULT_NUM_QUERIES | Some v \<Rightarrow> v),
      sa_learnings = (case ls of None \<Rightarrow> [] | Some v \<Rightarrow> v),
      sa_researchGoal = (case goal of None \<Rightarrow> ''Initial query'' | Some v \<Rightarrow> v),
      sa_initialQuery = iq,
      sa_depth = (case d of None \<Rightarrow> 1 | Some v \<Rightarrow> v),
      sa_breadth = (case b of None \<Rightarrow> 1 | Some v \<Rightarrow> v)\<rparr>"

text \<open>The values a property of the key object holds.\<close>

datatype jsval = JUndefined | JStr string | JNum int | JArr "string list"

text \<open>\<open>String(n)\<close> for an integer: its decimal digits, with a minus sign when negative.\<close>

function showNat :: "nat \<Rightarrow> string" where
  "showNat n =
     (if n < 10 then [char_of (48 + n)] else showNat (n div 10) @ [char_of (48 + n mod 10)])"
  by pat_completeness auto
termination
  by (relation "measure id") auto

declare showNat.simps [simp del]

definition showInt :: "int \<Rightarrow> string" where
  "showInt i = (if i < 0 then CHR ''-'' # showNat (nat (- i)) else showNat (nat i))"

text \<open>
  The hash of the learnings:
  \<open>learnings.length > 0 ? String(learnings.reduce((acc, val) => acc + val.charCodeAt(0), 0)) : ''\<close>.
  \<open>charCodeAt(0)\<close> of the empty string is NaN (\<open>None\<close>), and a sum with NaN is NaN.
\<close>

definition charCodeAt0 :: "string \<Rightarrow> nat option" where
  "charCodeAt0 s = (case s of [] \<Rightarrow> None | c # _ \<Rightarrow> Some (of_char c))"

definition addCode :: "string \<Rightarrow> nat option \<Rightarrow> nat option" where
  "addCode val acc =
     (case acc of None \<Rightarrow> None
      | Some a \<Rightarrow> (case charCodeAt0 val of None \<Rightarrow> None | Some c \<Rightarrow> Some (a + c)))"

definition learningsHash :: "string list \<Rightarrow> string" where
  "learningsHash ls =
     (if ls = [] then ''''
      else (case fold addCode ls (Some 0) of None \<Rightarrow> ''NaN'' | Some n \<Rightarrow> showNat n))"

text \<open>
  The key object: the six properties in the order of the object literal, the ones deleted
  by the five \<open>delete\<close> statements left out, and \<open>learningsHash\<close> added last.
\<close>

definition keyObject :: "SerpArgs \<Rightarrow> (string \<times> jsval) list" where
  "keyObject a =
     [(''rawQuery'', JStr (sa_query a))] @
     (if sa_numQueries a = DEFAULT_NUM_QUERIES then [] else [(''numQueries'', JNum (sa_numQueries a))]) @
     (if sa_researchGoal a = ''Initial query'' then []
      else [(''researchGoal'', JStr (sa_researchGoal a))]) @
     (if sa_initialQuery a = Some (sa_query a) then []
      else [(''initialQuery'', (case sa_initialQuery a of None \<Rightarrow> JUndefined | Some v \<Rightarrow> JStr v))]) @
     (if sa_depth a = 1 then [] else [(''depth'', JNum (sa_depth a))]) @
     (if sa_breadth a = 1 then [] else [(''breadth'', JNum (sa_breadth a))]) @
     [(''learningsHash'', JStr (learningsHash (sa_learnings a)))]"

text \<open>
  \<open>JSON.stringify\<close> of such an object: a property whose value is \<open>undefined\<close> is left
  out; a string is quoted, with the quote, the backslash and the control characters
  escaped; an integer is written in decimal; an array of strings is written in brackets.
\<close>

definition hexDigit :: "nat \<Rightarrow> char" where
  "hexDigit d = (if d < 10 then char_of (48 + d) else char_of (87 + d))"

definition escapeChar :: "char \<Rightarrow> string" where
  "escapeChar c =
     (if c = CHR 0x22 then [CHR 0x5C, CHR 0x22]
      else if c = CHR 0x5C then [CHR 0x5C, CHR 0x5C]
      else if c = CHR 0x08 then [CHR 0x5C, CHR ''b'']
      else if c = CHR 0x0C then [CHR 0x5C, CHR ''f'']
      else if c = CHR 0x0A then [CHR 0x5C, CHR ''n'']
      else if c = CHR 0x0D then [CHR 0x5C, CHR ''r'']
      else if c = CHR 0x09 then [CHR 0x5C, CHR ''t'']
      else if (of_char c :: nat) < 32
        then [CHR 0x5C, CHR ''u'', CHR ''0'', CHR ''0'',
              hexDigit (of_char c div 16), hexDigit (of_char c mod 16)]
      else [c])"

definition jsonQuote :: "string \<Rightarrow> string" where
  "jsonQuote s = [CHR 0x22] @ concat (map escapeChar s) @ [CHR 0x22]"

definition stringifyProperty :: "string \<times> jsval \<Rightarrow> string option" where
  "stringifyProperty p =
     (case snd p of
        JUndefined \<Rightarrow> None
      | JStr s \<Rightarrow> Some (jsonQuote (fst p) @ '':'' @ jsonQuote s)
      | JNum n \<Rightarrow> Some (jsonQuote (fst p) @ '':'' @ showInt n)
      | JArr xs \<Rightarrow>
          Some (jsonQuote (fst p) @ '':'' @ ''['' @ js_join '','' (map jsonQuote xs) @ '']''))"

definition stringifyObject :: "(string \<times> jsval) list \<Rightarrow> string" where
  "stringifyObject obj = ''{'' @ js_join '','' (List.map_filter stringifyProperty obj) @ ''}''"

definition serpCacheKey :: "SerpArgs \<Rightarrow> string" where
  "serpCacheKey a = stringifyObject (keyObject a)"

text \<open>A sample call: the query q with one learning, every other parameter at its default.\<close>

definition sampleSerpArgs :: "string list \<Rightarrow> SerpArgs" where
  "sampleSerpArgs ls = serpArgs ''q'' None (Some ls) None None None None"

section \<open>The semantic splitter (SemanticTextSplitter and semanticChunking in src/ai/providers.ts)\<close>

text \<open>\<open>text.replace(/\r\n?/g, '\n')\<close>: a carriage return, with the line feed after it if any, becomes one line feed.\<close>

fun normalizeNewlines :: "string \<Rightarrow> string" where
  "normalizeNewlines [] = []"
| "normalizeNewlines [c] = (if c = CHR 0x0D then [CHR 0x0A] else [c])"
| "normalizeNewlines (c # d # cs) =
     (if c = CHR 0x0D
      then (if d = CHR 0x0A then CHR 0x0A # normalizeNewlines cs
            else CHR 0x0A # normalizeNewlines (d # cs))
      else c # normalizeNewlines (d # cs))"

text \<open>
  \<open>normalized.split(/(?<=[.!?])\s+/g)\<close>: the text is cut at every maximal run of white
  space that directly follows a full stop, an exclamation mark or a question mark.
  \<open>prev\<close> is the code unit before the position, \<open>cur\<close> the piece being read, reversed.
\<close>

definition endsSentence :: "char option \<Rightarrow> bool" where
  "endsSentence prev \<longleftrightarrow> prev \<in> {Some CHR ''.'', Some CHR ''!'', Some CHR ''?''}"

function splitSentences :: "char option \<Rightarrow> string \<Rightarrow> string \<Rightarrow> string list" where
  "splitSentences prev cur [] = [rev cur]"
| "splitSentences prev cur (c # cs) =
     (if isWhitespace c \<and> endsSentence prev
      then rev cur # splitSentences (Some CHR '' '') [] (dropWhile isWhitespace cs)
      else splitSentences (Some c) (c # cur) cs)"
  by pat_completeness auto
termination
  by (relation "measure (\<lambda>(prev, cur, s). length s)") (auto simp: less_Suc_eq_le length_dropWhile_le)

text \<open>\<open>clean(s)\<close>: white space runs collapsed, then trimmed.\<close>

definition clean :: "string \<Rightarrow> string" where
  "clean s = trim (collapseWhitespace s)"

definition sentencesOf :: "string \<Rightarrow> string list" where
  "sentencesOf text =
     filter (\<lambda>s. s \<noteq> []) (map clean (splitSentences None [] (normalizeNewlines text)))"

text \<open>
  What the splitter takes from outside the repository: the embedding service (it may
  throw), the tokenizer's count of a string, and \<open>cosineSimilarity\<close> of the package ai (it
  throws on vectors of different lengths). Vectors hold rationals in place of doubles.
\<close>

record SemanticEnv =
  generateTextEmbedding :: "string \<Rightarrow> error + rat list"
  tokenCount :: "string \<Rightarrow> int"
  cosineSimilarity :: "rat list \<Rightarrow> rat list \<Rightarrow> error + rat"
  envChunkSize :: "int option"

text \<open>
  \<open>await Promise.all(sentences.map(s => generateTextEmbedding(s)))\<close>: the vectors in the
  order of the sentences, or a failure when a request fails.
\<close>

fun embedAll :: "SemanticEnv \<Rightarrow> string list \<Rightarrow> error + rat list list" where
  "embedAll env [] = Inr []"
| "embedAll env (s # ss) =
     (case generateTextEmbedding env s of
        Inl e \<Rightarrow> Inl e
      | Inr v \<Rightarrow> (case embedAll env ss of Inl e \<Rightarrow> Inl e | Inr vs \<Rightarrow> Inr (v # vs)))"

text \<open>
  The inner loop of the grouping: while the next sentence is close to the centroid
  (similarity at least 0.65) and the merged text is within the token budget, merge it and
  average the centroid. It returns the chunk, the centroid and the index it stopped at.
\<close>

function mergeLoop ::
  "SemanticEnv \<Rightarrow> int \<Rightarrow> string list \<Rightarrow> rat list list \<Rightarrow> string \<Rightarrow> rat list \<Rightarrow> nat \<Rightarrow>
   error + (string \<times> rat list \<times> nat)" where
  "mergeLoop env csize sentences embs current centroid i =
     (if i < length sentences
      then (let next = sentences ! i;
                nextEmb = (if i < length embs then embs ! i else [])
            in case (if centroid \<noteq> [] \<and> nextEmb \<noteq> []
                     then cosineSimilarity env centroid nextEmb else Inr 0) of
                 Inl e \<Rightarrow> Inl e
               | Inr sim \<Rightarrow>
                   (let merged = trim (current @ '' '' @ next) in
                    if tokenCount env merged \<le> csize \<and> sim \<ge> 65 / 100
                    then mergeLoop env csize sentences embs merged
                           (if centroid \<noteq> [] \<and> nextEmb \<noteq> [] \<and> length centroid = length nextEmb
                            then map2 (\<lambda>v w. (v + w) / 2) centroid nextEmb else centroid)
                           (Suc i)
                    else Inr (current, centroid, i)))
      else Inr (current, centroid, i))"
  by pat_completeness auto
termination
  by (relation "measure (\<lambda>(env, csize, sentences, embs, current, centroid, i). length sentences - i)")
     auto

declare mergeLoop.simps [simp del]

text \<open>
  The outer loop: a chunk starts at sentence \<open>i\<close>; after it is pushed, with an overlap
  configured and sentences left, the next chunk starts one sentence back, but never at or
  before the start of this one.
\<close>

function groupLoop ::
  "SemanticEnv \<Rightarrow> int \<Rightarrow> int \<Rightarrow> string list \<Rightarrow> rat list list \<Rightarrow> nat \<Rightarrow> string list \<Rightarrow>
   error + string list" where
  "groupLoop env csize overlap sentences embs i chunks =
     (if i < length sentences
      then (case mergeLoop env csize sentences embs (sentences ! i)
                   (if i < length embs then embs ! i else []) (Suc i) of
              Inl e \<Rightarrow> Inl e
            | Inr (current, centroid, j) \<Rightarrow>
                groupLoop env csize overlap sentences embs
                  (if j < length sentences \<and> overlap > 0 then max (Suc i) (j - 1) else j)
                  (chunks @ [current]))
      else Inr chunks)"
  by pat_completeness auto
termination
proof -
  have stop: "mergeLoop env csize sentences embs current centroid i = Inr (c, cen, j) \<Longrightarrow> i \<le> j"
    for env csize sentences embs current centroid i c cen j
  proof (induction env csize sentences embs current centroid i rule: mergeLoop.induct)
    case (1 env csize sentences embs current centroid i)
    from "1.prems" show ?case
      by (subst (asm) mergeLoop.simps)
         (auto simp: Let_def split: if_splits sum.splits dest!: "1.IH"[OF _ refl refl _ refl])
  qed
  show ?thesis
    by (relation "measure (\<lambda>(env, csize, overlap, sentences, embs, i, chunks). length sentences - i)")
       (auto dest!: stop)
qed

declare groupLoop.simps [simp del]

text \<open>
  \<open>SemanticTextSplitter.splitText\<close>: nothing for a blank text; the structural splitter
  (built with the same size and overlap, so its constructor may throw) on the normalised
  text when there is at most one sentence; otherwise the embeddings of all sentences and
  the greedy grouping, the chunks cleaned and the empty ones dropped.
\<close>

definition semanticSplitText :: "SemanticEnv \<Rightarrow> int \<Rightarrow> int \<Rightarrow> string \<Rightarrow> error + string list" where
  "semanticSplitText env csize overlap text =
     (if trim text = [] then Inr []
      else if length (sentencesOf text) \<le> 1
      then (case newRecursiveCharacterTextSplitter (Some csize) (Some overlap) None of
              Inl e \<Rightarrow> Inl e
            | Inr rc \<Rightarrow> Inr (splitText rc (normalizeNewlines text)))
      else (case embedAll env (sentencesOf text) of
              Inl e \<Rightarrow> Inl e
            | Inr embs \<Rightarrow>
                (case groupLoop env csize overlap (sentencesOf text) embs 0 [] of
                   Inl e \<Rightarrow> Inl e
                 | Inr chunks \<Rightarrow> Inr (filter (\<lambda>c. c \<noteq> []) (map clean chunks)))))"

text \<open>\<open>getChunkSize()\<close>: the environment's CHUNK_SIZE when set, else 140.\<close>

definition getChunkSize :: "SemanticEnv \<Rightarrow> int" where
  "getChunkSize env = (case envChunkSize env of None \<Rightarrow> 140 | Some n \<Rightarrow> n)"

text \<open>
  \<open>semanticChunking(text, splitterOpt)\<close>: the given splitter, or a semantic splitter with
  the chunk size of the environment and the overlap 20; whatever its \<open>splitText\<close> throws
  is caught, and the answer is then the one chunk \<open>[text]\<close>.
\<close>

definition semanticChunking ::
  "SemanticEnv \<Rightarrow> string \<Rightarrow> (string \<Rightarrow> error + string list) option \<Rightarrow> string list" where
  "semanticChunking env text splitterOpt =
     (case (case splitterOpt of
              Some effectiveSplitter \<Rightarrow> effectiveSplitter text
            | None \<Rightarrow> semanticSplitText env (getChunkSize env) 20 text) of
        Inr chunks \<Rightarrow> chunks
      | Inl e \<Rightarrow> [text])"

text \<open>An environment whose embedding service throws on every request.\<close>

definition failingEnv :: SemanticEnv where
  "failingEnv =
     \<lparr>generateTextEmbedding = (\<lambda>s. Inl (ProviderError ''embedding failed'')),
      tokenCount = (\<lambda>s. int (length s)),
      cosineSimilarity = (\<lambda>v w. Inr 0),
      envChunkSize = None\<rparr>"

section \<open>Feedback generation with one repair pass (generateFeedback in src/feedback.ts)\<close>

text \<open>
  The two validators of src/deep-research.ts. \<open>s.split(/\s+/)\<close> has one piece more than
  \<open>s\<close> has maximal runs of white space.
\<close>

fun whitespaceRuns :: "bool \<Rightarrow> string \<Rightarrow> nat" where
  "whitespaceRuns inRun [] = 0"
| "whitespaceRuns inRun (c # cs) =
     (if isWhitespace c then (if inRun then 0 else 1) + whitespaceRuns True cs
      else whitespaceRuns False cs)"

definition splitWhitespaceLength :: "string \<Rightarrow> nat" where
  "splitWhitespaceLength s = Suc (whitespaceRuns False s)"

definition validateAcademicInput :: "string \<Rightarrow> bool" where
  "validateAcademicInput input \<longleftrightarrow> length input > 10 \<and> splitWhitespaceLength (trim input) \<ge> 3"

definition isDigit :: "char \<Rightarrow> bool" where
  "isDigit c \<longleftrightarrow> 48 \<le> (of_char c :: nat) \<and> (of_char c :: nat) \<le> 57"

text \<open>
  The matches of \<open>/\[\[\d+\]\]/g\<close> (\<open>exact = None\<close>) and of \<open>/\[\[\d{4}\]\]/g\<close>
  (\<open>exact = Some 4\<close>) in a text, from the left, without overlap: each match is returned
  as its digits.
\<close>

definition citationAt :: "nat option \<Rightarrow> string \<Rightarrow> (string \<times> string) option" where
  "citationAt exact s =
     (if take 2 s = ''[[''
      then (let digits = (case exact of
                            None \<Rightarrow> takeWhile isDigit (drop 2 s)
                          | Some n \<Rightarrow> take n (takeWhile isDigit (drop 2 s)));
                rest = drop (2 + length digits) s
            in if digits \<noteq> [] \<and> (case exact of None \<Rightarrow> True | Some n \<Rightarrow> length digits = n)
                  \<and> take 2 rest = '']]''
               then Some (digits, drop 2 rest) else None)
      else None)"

function citationMatches :: "nat option \<Rightarrow> string \<Rightarrow> string list" where
  "citationMatches exact [] = []"
| "citationMatches exact (c # cs) =
     (case citationAt exact (c # cs) of
        Some (digits, rest) \<Rightarrow>
          digits # citationMatches exact (drop (length (c # cs) - length rest) (c # cs))
      | None \<Rightarrow> citationMatches exact cs)"
  by pat_completeness auto
termination
  by (relation "measure (\<lambda>(exact, s). length s)")
     (auto simp: citationAt_def Let_def split: if_splits)

text \<open>\<open>Number.parseInt\<close> of a string of decimal digits.\<close>

definition digitsValue :: "string \<Rightarrow> nat" where
  "digitsValue ds = foldl (\<lambda>acc c. 10 * acc + (of_char c - 48)) 0 ds"

text \<open>\<open>text.includes(sub)\<close>\<close>

fun js_includes :: "string \<Rightarrow> string \<Rightarrow> bool" where
  "js_includes [] sub = (sub = [])"
| "js_includes (c # cs) sub = (take (length sub) (c # cs) = sub \<or> js_includes cs sub)"

text \<open>
  \<open>validateAcademicOutput\<close>: more than 1.5 citations per hundred words, more than three
  citations of a year after 2019, and a conflict disclosure. The density is a quotient of
  doubles in the source and of rationals here.
\<close>

definition citationDensity :: "string \<Rightarrow> rat" where
  "citationDensity text =
     of_nat (length (citationMatches None text)) / (of_nat (splitWhitespaceLength text) / 100)"

definition recentSources :: "string \<Rightarrow> nat" where
  "recentSources text = length (filter (\<lambda>yr. digitsValue yr > 2019) (citationMatches (Some 4) text))"

definition validateAcademicOutput :: "string \<Rightarrow> bool" where
  "validateAcademicOutput text \<longleftrightarrow>
     citationDensity text > 15 / 10 \<and> recentSources text > 3 \<and>
     (if js_includes text ''Conflict Disclosure:'' then (1::nat) else 0) = 1"

text \<open>The options of \<open>generateFeedback\<close> after the defaults of its signature.\<close>

record FeedbackOptions =
  fo_query :: string
  fo_numQuestions :: int
  fo_researchGoal :: string
  fo_depth :: int
  fo_breadth :: int
  fo_existingLearnings :: "string list"

record FeedbackResponse =
  followUpQuestions :: "string list"
  analysis :: string
  confidenceScore :: "rat option"

text \<open>
  \<open>FeedbackResponseSchema\<close>: at most five questions of at least ten code units each, an
  analysis of at least a hundred, and a confidence score, when present, between 0 and 1.
\<close>

definition FeedbackResponseSchema :: "FeedbackResponse \<Rightarrow> bool" where
  "FeedbackResponseSchema r \<longleftrightarrow>
     list_all (\<lambda>q. length q \<ge> 10) (followUpQuestions r) \<and> length (followUpQuestions r) \<le> 5 \<and>
     length (analysis r) \<ge> 100 \<and>
     (case confidenceScore r of None \<Rightarrow> True | Some c \<Rightarrow> 0 \<le> c \<and> c \<le> 1)"

text \<open>
  What \<open>generateFeedback\<close> takes from outside: the generative service (asked by the
  number of the request and the prompt; it may throw), \<open>JSON.parse\<close> followed by the
  reading of the three fields (\<open>None\<close> when the text is not JSON or a field has the wrong
  type), \<open>conductResearch\<close> (it may throw), the prompt built from the options, and the
  fixed text of the repair prompt that precedes the previous output.
\<close>

record FeedbackEnv =
  callGemini :: "nat \<Rightarrow> string \<Rightarrow> error + string"
  readFeedbackJSON :: "string \<Rightarrow> FeedbackResponse option"
  conductResearch :: "string \<Rightarrow> int \<Rightarrow> error + string"
  feedbackPrompt :: "FeedbackOptions \<Rightarrow> string"
  repairPreamble :: string

text \<open>
  The state: the prompts sent to the generative service by \<open>generateFeedback\<close>, in order,
  and the feedback cache, a map from keys to responses (its expiry and eviction are not
  modelled).
\<close>

record FeedbackState =
  generationCalls :: "string list"
  feedbackCache :: "string \<rightharpoonup> FeedbackResponse"

text \<open>\<open>JSON.parse\<close> and \<open>FeedbackResponseSchema.parse\<close> in one try block.\<close>

definition parseFeedback :: "FeedbackEnv \<Rightarrow> string \<Rightarrow> FeedbackResponse option" where
  "parseFeedback env jsonText =
     (case readFeedbackJSON env jsonText of
        None \<Rightarrow> None
      | Some r \<Rightarrow> if FeedbackResponseSchema r then Some r else None)"

definition repairPrompt :: "FeedbackEnv \<Rightarrow> string \<Rightarrow> string" where
  "repairPrompt env jsonText = repairPreamble env @ jsonText"

definition repairFailed :: FeedbackResponse where
  "repairFailed =
     \<lparr>followUpQuestions = [], analysis = ''Failed to parse feedback response after repair.'',
      confidenceScore = None\<rparr>"

definition apiError :: FeedbackResponse where
  "apiError =
     \<lparr>followUpQuestions = [],
      analysis = ''Error generating feedback. Please check API key and logs.'',
      confidenceScore = None\<rparr>"

definition invalidFeedback :: FeedbackResponse where
  "invalidFeedback =
     \<lparr>followUpQuestions = [], analysis = ''Unable to generate valid feedback'',
      confidenceScore = None\<rparr>"

text \<open>One request to the generative service: it is recorded, and its outcome returned.\<close>

definition request :: "FeedbackEnv \<Rightarrow> string \<Rightarrow> FeedbackState \<Rightarrow> (error + string) \<times> FeedbackState" where
  "request env prompt st =
     (callGemini env (length (generationCalls st)) prompt,
      st\<lparr>generationCalls := generationCalls st @ [prompt]\<rparr>)"

text \<open>
  The cache key: the six options, the four with a default deleted when they have it, and
  the hash of the learnings added last.
\<close>

definition feedbackKeyObject :: "FeedbackOptions \<Rightarrow> (string \<times> jsval) list" where
  "feedbackKeyObject opts =
     [(''query'', JStr (fo_query opts))] @
     (if fo_numQuestions opts = 3 then [] else [(''numQuestions'', JNum (fo_numQuestions opts))]) @
     (if fo_researchGoal opts = ''Understand the user's query'' then []
      else [(''researchGoal'', JStr (fo_researchGoal opts))]) @
     (if fo_depth opts = 1 then [] else [(''depth'', JNum (fo_depth opts))]) @
     (if fo_breadth opts = 1 then [] else [(''breadth'', JNum (fo_breadth opts))]) @
     [(''existingLearnings'', JArr (fo_existingLearnings opts)),
      (''learningsHash'', JStr (learningsHash (fo_existingLearnings opts)))]"

definition feedbackCacheKey :: "FeedbackOptions \<Rightarrow> string" where
  "feedbackCacheKey opts = stringifyObject (feedbackKeyObject opts)"

text \<open>
  The end of the try block, with the response parsed or defaulted: a response whose
  analysis fails \<open>validateAcademicOutput\<close> is replaced by a fixed one and returned;
  any other is stored in the cache and returned.
\<close>

definition finishFeedback ::
  "FeedbackOptions \<Rightarrow> FeedbackResponse \<Rightarrow> FeedbackState \<Rightarrow> (error + FeedbackResponse) \<times> FeedbackState" where
  "finishFeedback opts feedbackResponse st =
     (if \<not> validateAcademicOutput (analysis feedbackResponse) then (Inr invalidFeedback, st)
      else (Inr feedbackResponse,
            st\<lparr>feedbackCache := (feedbackCache st)(feedbackCacheKey opts \<mapsto> feedbackResponse)\<rparr>))"

text \<open>
  \<open>generateFeedback\<close>. The input validation throws, and so may \<open>conductResearch\<close>, both
  before the try block. Inside it, a failure of the generative service gives the fixed
  response of the catch clause. A first output that does not parse is sent back once, after
  the repair preamble; if the repaired output does not parse either, the response is the
  fixed repair failure.
\<close>

definition generateFeedback ::
  "FeedbackEnv \<Rightarrow> FeedbackOptions \<Rightarrow> FeedbackState \<Rightarrow> (error + FeedbackResponse) \<times> FeedbackState" where
  "generateFeedback env opts st =
     (if \<not> validateAcademicInput (fo_query opts)
      then (Inl (ConfigError ''Query fails academic validation checks''), st)
      else (case feedbackCache st (feedbackCacheKey opts) of
              Some cachedFeedback \<Rightarrow> (Inr cachedFeedback, st)
            | None \<Rightarrow>
               (case conductResearch env (fo_query opts) (fo_depth opts) of
                  Inl e \<Rightarrow> (Inl e, st)
                | Inr researchAnalysis \<Rightarrow>
                   (case request env (feedbackPrompt env opts) st of
                      (Inl e, st1) \<Rightarrow> (Inr apiError, st1)
                    | (Inr jsonText, st1) \<Rightarrow>
                       (case parseFeedback env jsonText of
                          Some parsed \<Rightarrow> finishFeedback opts parsed st1
                        | None \<Rightarrow>
                           (case request env (repairPrompt env jsonText) st1 of
                              (Inl e, st2) \<Rightarrow> (Inr apiError, st2)
                            | (Inr repaired, st2) \<Rightarrow>
                               finishFeedback opts
                                 (case parseFeedback env repaired of
                                    Some parsed \<Rightarrow> parsed
                                  | None \<Rightarrow> repairFailed)
                                 st2))))))"

text \<open>
  A sample run: a service that answers every request with text that is not JSON, and a
  query of three words.
\<close>

definition sampleFeedbackEnv :: FeedbackEnv where
  "sampleFeedbackEnv =
     \<lparr>callGemini = (\<lambda>n prompt. Inr ''not json''),
      readFeedbackJSON = (\<lambda>s. None),
      conductResearch = (\<lambda>q d. Inr ''''),
      feedbackPrompt = (\<lambda>opts. ''Return ONLY JSON: '' @ fo_query opts),
      repairPreamble = ''Repair it. Previous: ''\<rparr>"

definition sampleFeedbackOptions :: FeedbackOptions where
  "sampleFeedbackOptions =
     \<lparr>fo_query = ''solid state batteries'', fo_numQuestions = 3,
      fo_researchGoal = ''Understand the user's query'', fo_depth = 1, fo_breadth = 1,
      fo_existingLearnings = []\<rparr>"

definition emptyFeedbackState :: FeedbackState where
  "emptyFeedbackState = \<lparr>generationCalls = [], feedbackCache = Map.empty\<rparr>"

section \<open>The recursion controller (deepResearch in src/deep-research.ts)\<close>

subsection \<open>Data\<close>

record SerpQuery =
  sq_query :: string
  sq_researchGoal :: string

record FirecrawlResult =
  fr_url :: "string option"
  fr_markdown :: "string option"

text \<open>
  A search response: \<open>data\<close> is absent in the objects written \<open>{ metadata: {} }\<close>, and
  the metadata is then the empty object (\<open>None\<close>).
\<close>

record SearchResponse =
  sr_data :: "FirecrawlResult list option"
  sr_metadata :: "(bool \<times> string) option"

record ResearchResult =
  rr_content :: string
  rr_sources :: "string list"
  rr_methodology :: string
  rr_limitations :: string
  rr_citations :: "(string \<times> string option) list"
  rr_learnings :: "string list"
  rr_visitedUrls :: "string list"
  rr_firecrawlResults :: SearchResponse
  rr_analysis :: string

record ProcessResult =
  pr_analysis :: string
  pr_content :: string
  pr_sources :: "string list"
  pr_methodology :: string
  pr_limitations :: string
  pr_citations :: "string list"
  pr_learnings :: "string list"
  pr_visitedUrls :: "string list"
  pr_firecrawlResults :: SearchResponse

record ProcessedGeminiResponse =
  pg_analysis :: string
  pg_learnings :: "string list"
  pg_urls :: "string list"
  pg_citations :: "(string \<times> string) list"

text \<open>
  The options of \<open>deepResearch\<close> after the defaults of its signature. The two arrays are
  given by reference: an address of the store, or \<open>None\<close> when the caller passes none.
  \<open>onProgress\<close> says whether the caller gave that callback.
\<close>

record DeepResearchOptions =
  dro_query :: string
  dro_depth :: int
  dro_breadth :: int
  dro_learnings :: "nat option"
  dro_visitedUrls :: "nat option"
  dro_onProgress :: bool
  dro_initialQuery :: string
  dro_researchGoal :: string

text \<open>
  What a run does to the outside, in order. An invocation of \<open>deepResearch\<close> is named by
  its path: the indices of the workers through which it was reached from the first
  invocation (the path is not a value of the source; it tells the invocations apart).
\<close>

datatype event =
    Invoked "nat list" int int
  | SerpQueriesRequested "nat list" SerpArgs
  | GeminiRequested "nat list" nat string
  | OnProgress ResearchProgress
  | ReportProgress ResearchProgress

text \<open>
  The state: the arrays that exist, each at its address (its position in \<open>store\<close>), and
  the events so far. The code never writes into an array it was given or has copied; it only
  creates arrays, which \<open>alloc\<close> does.
\<close>

record DRState =
  store :: "string list list"
  events :: "event list"

definition deref :: "DRState \<Rightarrow> nat \<Rightarrow> string list" where
  "deref st a = (if a < length (store st) then store st ! a else [])"

definition alloc :: "string list \<Rightarrow> DRState \<Rightarrow> nat \<times> DRState" where
  "alloc xs st = (length (store st), st\<lparr>store := store st @ [xs]\<rparr>)"

definition emit :: "event \<Rightarrow> DRState \<Rightarrow> DRState" where
  "emit ev st = st\<lparr>events := events st @ [ev]\<rparr>"

text \<open>
  What the controller takes from outside the function: the concurrency limit read from
  the environment at load time (\<open>None\<close> when \<open>parseInt\<close> gives NaN) and the one of the batch
  executor, already clamped; the sub-queries \<open>generateSerpQueries\<close> returns to an
  invocation (it never throws); the text the generative service returns to a worker (it may
  throw); \<open>processGeminiResponse\<close> (it may throw); the prompt builders; for the batches of
  \<open>processSerpResult\<close>, the service's answer to a prompt, the parsing of an answer
  (\<open>Inl\<close>: \<open>JSON.parse\<close> throws; \<open>Inr None\<close>: the schema does not match), the host name of
  a URL (\<open>None\<close>: \<open>new URL\<close> throws) and the order of completion.
\<close>

record ResearchEnv =
  ConcurrencyLimit :: "int option"
  batchConcurrency :: int
  generateSerpQueries :: "nat list \<Rightarrow> SerpArgs \<Rightarrow> SerpQuery list"
  callGeminiProConfigurable :: "nat list \<Rightarrow> nat \<Rightarrow> string \<Rightarrow> error + string"
  processGeminiResponse :: "string \<Rightarrow> error + ProcessedGeminiResponse"
  generateGeminiPrompt :: "string \<Rightarrow> string \<Rightarrow> string list \<Rightarrow> string"
  learningPrompt :: "string \<Rightarrow> string \<Rightarrow> string \<Rightarrow> string \<Rightarrow> string"
  generateContent :: "string \<Rightarrow> error + string"
  parseLearnings :: "string \<Rightarrow> error + string list option"
  hostname :: "string \<Rightarrow> string option"
  batchSchedule :: "nat list"

subsection \<open>processSerpResult\<close>

text \<open>\<open>compact\<close> of lodash on strings: the empty strings are dropped.\<close>

definition compact :: "string list \<Rightarrow> string list" where
  "compact xs = filter (\<lambda>s. s \<noteq> []) xs"

definition createResearchSplitter :: "error + TextSplitterParams" where
  "createResearchSplitter =
     newRecursiveCharacterTextSplitter (Some 140) (Some 20)
       (Some [[CHR 0x0A, CHR 0x0A], [CHR 0x0A], '' ''])"

text \<open>
  \<open>generateBatchWithTools(prompts, tools)\<close>: the batch executor over the prompts. The
  schedule of the environment is followed by enough first-in-first-out completions for
  every worker to finish. The awaited value is the results array or the rejection; a
  promise that never settles would leave the caller waiting, which the last case marks.
\<close>

definition generateBatchWithTools :: "ResearchEnv \<Rightarrow> string list \<Rightarrow> error + string option list" where
  "generateBatchWithTools env prompts =
     (case promise (runWithConcurrency (map Some prompts) (batchConcurrency env)
                      (\<lambda>p i. generateContent env p)
                      (batchSchedule env @ replicate (length prompts) 0)) of
        Resolved rs \<Rightarrow> Inr rs
      | Rejected e \<Rightarrow> Inl e
      | Pending \<Rightarrow> Inl (TypeError ''the batch never settles''))"

text \<open>
  The loop over the batch results: \<open>JSON.parse\<close> may throw; the learnings of every
  result that matches the schema are appended.
\<close>

fun collectLearnings :: "ResearchEnv \<Rightarrow> string option list \<Rightarrow> string list \<Rightarrow> error + string list" where
  "collectLearnings env [] learnings = Inr learnings"
| "collectLearnings env (br # brs) learnings =
     (case br of
        None \<Rightarrow> Inl (TypeError ''Cannot read properties of undefined'')
      | Some text \<Rightarrow>
          (case parseLearnings env text of
             Inl e \<Rightarrow> Inl e
           | Inr None \<Rightarrow> collectLearnings env brs learnings
           | Inr (Some ls) \<Rightarrow> collectLearnings env brs (learnings @ ls)))"

definition processSerpResult ::
  "ResearchEnv \<Rightarrow> string \<Rightarrow> SearchResponse \<Rightarrow> nat \<Rightarrow> error + string list" where
  "processSerpResult env query result numLearnings =
     (case sr_data result of
        None \<Rightarrow> Inl (TypeError ''Cannot read properties of undefined'')
      | Some data \<Rightarrow>
          (let contents = compact (map (\<lambda>item. case fr_markdown item of None \<Rightarrow> [] | Some m \<Rightarrow> m) data)
           in case createResearchSplitter of
                Inl e \<Rightarrow> Inl e
              | Inr splitter \<Rightarrow>
                  (let chunks = splitText splitter (js_join [CHR 0x0A, CHR 0x0A] contents);
                       firstUrl = (case data of [] \<Rightarrow> None | item # _ \<Rightarrow> fr_url item);
                       derivedTitle =
                         (case firstUrl of
                            None \<Rightarrow> ''No Title''
                          | Some u \<Rightarrow> (case hostname env u of
                                         None \<Rightarrow> u
                                       | Some h \<Rightarrow> if h = [] then u else h));
                       prompts = map (learningPrompt env query derivedTitle
                                        (case firstUrl of None \<Rightarrow> ''No URL'' | Some u \<Rightarrow> u)) chunks
                   in case generateBatchWithTools env prompts of
                        Inl e \<Rightarrow> Inl e
                      | Inr batchResults \<Rightarrow>
                          (case collectLearnings env batchResults [] of
                             Inl e \<Rightarrow> Inl e
                           | Inr learnings \<Rightarrow> Inr (take numLearnings learnings)))))"

subsection \<open>deepResearch\<close>

definition emptySearchResponse :: SearchResponse where
  "emptySearchResponse = \<lparr>sr_data = None, sr_metadata = None\<rparr>"

definition emptyResearchResult :: ResearchResult where
  "emptyResearchResult =
     \<lparr>rr_content = [], rr_sources = [], rr_methodology = [], rr_limitations = [],
      rr_citations = [], rr_learnings = [], rr_visitedUrls = [],
      rr_firecrawlResults = emptySearchResponse, rr_analysis = []\<rparr>"

definition emptyProcessResult :: ProcessResult where
  "emptyProcessResult =
     \<lparr>pr_analysis = [], pr_content = [], pr_sources = [], pr_methodology = [],
      pr_limitations = [], pr_citations = [], pr_learnings = [], pr_visitedUrls = [],
      pr_firecrawlResults = emptySearchResponse\<rparr>"

text \<open>\<open>pLimit(concurrency)\<close> of the package p-limit throws unless the limit is at least one.\<close>

definition pLimit :: "int option \<Rightarrow> error + unit" where
  "pLimit c =
     (case c of
        None \<Rightarrow> Inl (TypeError ''Expected concurrency to be a number from 1 and up'')
      | Some n \<Rightarrow> if n < 1 then Inl (TypeError ''Expected concurrency to be a number from 1 and up'')
                  else Inr ())"

text \<open>\<open>Math.ceil(breadth / 2)\<close>\<close>

definition newBreadthOf :: "int \<Rightarrow> int" where
  "newBreadthOf breadth = \<lceil>(of_int breadth :: rat) / 2\<rceil>"

text \<open>The search result of a worker: the search is disabled, the data is the empty list.\<close>

definition disabledSearch :: "FirecrawlResult list" where
  "disabledSearch = []"

text \<open>
  The start of a worker, up to the inner try block: the prompt, the request to the
  generative service, \<open>processGeminiResponse\<close>, and the guard on the visited sources. A
  failure or a visited query ends the worker with the empty result (\<open>Inl\<close>).
\<close>

definition workerStart ::
  "ResearchEnv \<Rightarrow> nat list \<Rightarrow> nat \<Rightarrow> nat \<Rightarrow> nat \<Rightarrow> SerpQuery \<Rightarrow> DRState \<Rightarrow>
   (ProcessResult + ProcessedGeminiResponse) \<times> DRState" where
  "workerStart env path learnings visitedUrls i serpQuery st =
     (let prompt = generateGeminiPrompt env (sq_query serpQuery) (sq_researchGoal serpQuery)
                     (deref st learnings);
          st1 = emit (GeminiRequested path i prompt) st
      in case callGeminiProConfigurable env path i prompt of
           Inl e \<Rightarrow> (Inl emptyProcessResult, st1)
         | Inr geminiResponseText \<Rightarrow>
             (case processGeminiResponse env geminiResponseText of
                Inl e \<Rightarrow> (Inl emptyProcessResult, st1)
              | Inr geminiResult \<Rightarrow>
                  if sq_query serpQuery \<in> set (deref st1 visitedUrls)
                  then (Inl emptyProcessResult, st1)
                  else (Inr geminiResult, st1)))"

text \<open>The finally clause of the inner try block.\<close>

definition finallyReport :: "ResearchProgress \<Rightarrow> DRState \<Rightarrow> ResearchProgress \<times> DRState" where
  "finallyReport progress st =
     (let progress' = progress\<lparr>completedQueries := completedQueries progress + 1\<rparr>
      in (progress', emit (ReportProgress progress') st))"

definition deeperProgress :: "ResearchProgress \<Rightarrow> int \<Rightarrow> int \<Rightarrow> string \<Rightarrow> ResearchProgress" where
  "deeperProgress progress newDepth newBreadth query =
     \<lparr>currentQuery = Some query, currentDepth = newDepth, totalDepth = totalDepth progress,
      currentBreadth = newBreadth, totalBreadth = totalBreadth progress,
      totalQueries = totalQueries progress, completedQueries = completedQueries progress + 1\<rparr>"

definition fromDeeper :: "ResearchResult \<Rightarrow> ProcessResult" where
  "fromDeeper deeper =
     \<lparr>pr_analysis = rr_analysis deeper, pr_content = rr_content deeper,
      pr_sources = rr_sources deeper, pr_methodology = rr_methodology deeper,
      pr_limitations = rr_limitations deeper, pr_citations = map fst (rr_citations deeper),
      pr_learnings = rr_learnings deeper, pr_visitedUrls = rr_visitedUrls deeper,
      pr_firecrawlResults = rr_firecrawlResults deeper\<rparr>"

definition leafResult :: "ProcessedGeminiResponse \<Rightarrow> string list \<Rightarrow> string list \<Rightarrow> ProcessResult" where
  "leafResult geminiResult newLearnings newUrls =
     \<lparr>pr_analysis = (if pg_analysis geminiResult = [] then ''No analysis available''
                     else pg_analysis geminiResult),
      pr_content = js_join [CHR 0x0A, CHR 0x0A] newLearnings,
      pr_sources = [],
      pr_methodology = ''Semantic chunking with Gemini Flash 2.5'',
      pr_limitations = ''Current implementation focuses on text analysis only'',
      pr_citations = [],
      pr_learnings = newLearnings,
      pr_visitedUrls = newUrls,
      pr_firecrawlResults = \<lparr>sr_data = Some disabledSearch, sr_metadata = Some (False, ''No metadata'')\<rparr>\<rparr>"

text \<open>The aggregation after \<open>Promise.all\<close>: the workers' lists, flattened and compacted.\<close>

definition aggregate :: "ProcessResult list \<Rightarrow> ResearchResult" where
  "aggregate workerResults =
     (let visitedUrls = compact (concat (map pr_visitedUrls workerResults));
          learnings = compact (concat (map pr_learnings workerResults))
      in \<lparr>rr_content = js_join [CHR 0x0A, CHR 0x0A] learnings,
          rr_sources = [],
          rr_methodology = ''Semantic chunking with Gemini Flash 2.5'',
          rr_limitations = ''Current implementation focuses on text analysis only'',
          rr_citations = [],
          rr_learnings = learnings,
          rr_visitedUrls = visitedUrls,
          rr_firecrawlResults = \<lparr>sr_data = Some [], sr_metadata = Some (False, ''Firecrawl disabled'')\<rparr>,
          rr_analysis = []\<rparr>)"

definition initialProgress :: "DeepResearchOptions \<Rightarrow> ResearchProgress" where
  "initialProgress opts =
     \<lparr>currentQuery = None, currentDepth = dro_depth opts, totalDepth = dro_depth opts,
      currentBreadth = dro_breadth opts, totalBreadth = dro_breadth opts,
      totalQueries = dro_breadth opts * dro_depth opts, completedQueries = 0\<rparr>"

definition childOptions :: "DeepResearchOptions \<Rightarrow> SerpQuery \<Rightarrow> nat \<Rightarrow> nat \<Rightarrow> DeepResearchOptions" where
  "childOptions opts serpQuery allLearnings allUrls =
     \<lparr>dro_query = sq_query serpQuery,
      dro_depth = dro_depth opts - 1,
      dro_breadth = newBreadthOf (dro_breadth opts),
      dro_learnings = Some allLearnings,
      dro_visitedUrls = Some allUrls,
      dro_onProgress = dro_onProgress opts,
      dro_initialQuery = dro_initialQuery opts,
      dro_researchGoal = dro_researchGoal opts\<rparr>"

text \<open>
  \<open>deepResearch\<close>, the loop over the sub-queries, and the worker \<open>limitedProcessResult\<close>.
  The workers of one invocation share its variable \<open>progress\<close> and run under \<open>pLimit\<close>;
  the model runs them one after the other in the order of the sub-queries, which is the
  order in which \<open>Promise.all\<close> returns their workerResults. \<open>learnings\<close> and \<open>visitedUrls\<close> are
  the addresses of the copies made on entry.
\<close>

function deepResearch ::
    "ResearchEnv \<Rightarrow> DeepResearchOptions \<Rightarrow> nat list \<Rightarrow> DRState \<Rightarrow> (error + ResearchResult) \<times> DRState"
  and runWorkers ::
    "ResearchEnv \<Rightarrow> DeepResearchOptions \<Rightarrow> nat list \<Rightarrow> nat \<Rightarrow> nat \<Rightarrow> nat \<Rightarrow> SerpQuery list \<Rightarrow>
     ResearchProgress \<Rightarrow> DRState \<Rightarrow> ProcessResult list \<times> ResearchProgress \<times> DRState"
  and limitedProcessResult ::
    "ResearchEnv \<Rightarrow> DeepResearchOptions \<Rightarrow> nat list \<Rightarrow> nat \<Rightarrow> nat \<Rightarrow> nat \<Rightarrow> SerpQuery \<Rightarrow>
     ResearchProgress \<Rightarrow> DRState \<Rightarrow> ProcessResult \<times> ResearchProgress \<times> DRState"
where
  "deepResearch env opts path st =
     (case alloc (case dro_visitedUrls opts of None \<Rightarrow> [] | Some a \<Rightarrow> deref st a)
             (emit (Invoked path (dro_depth opts) (dro_breadth opts)) st) of
        (visitedUrls, st1) \<Rightarrow>
     (case alloc (case dro_learnings opts of None \<Rightarrow> [] | Some a \<Rightarrow> deref st a) st1 of
        (learnings, st2) \<Rightarrow>
       if dro_depth opts \<le> 0 then (Inr emptyResearchResult, st2)
       else if length (deref st2 visitedUrls) > 20 then (Inr emptyResearchResult, st2)
       else
         (let args = \<lparr>sa_query = dro_query opts, sa_numQueries = dro_breadth opts,
                      sa_learnings = deref st2 learnings, sa_researchGoal = dro_researchGoal opts,
                      sa_initialQuery = Some (dro_initialQuery opts), sa_depth = dro_depth opts,
                      sa_breadth = dro_breadth opts\<rparr>;
              serpQueries = generateSerpQueries env path args;
              st3 = emit (SerpQueriesRequested path args) st2
          in case pLimit (ConcurrencyLimit env) of
               Inl e \<Rightarrow> (Inl e, st3)
             | Inr limit \<Rightarrow>
                 (case runWorkers env opts path learnings visitedUrls 0 serpQueries
                         (initialProgress opts) st3 of
                    (workerResults, progress, st4) \<Rightarrow> (Inr (aggregate workerResults), st4)))))"
| "runWorkers env opts path learnings visitedUrls i [] progress st = ([], progress, st)"
| "runWorkers env opts path learnings visitedUrls i (serpQuery # rest) progress st =
     (case limitedProcessResult env opts path learnings visitedUrls i serpQuery progress st of
        (result, progress1, st1) \<Rightarrow>
          (case runWorkers env opts path learnings visitedUrls (Suc i) rest progress1 st1 of
             (workerResults, progress2, st2) \<Rightarrow> (result # workerResults, progress2, st2)))"
| "limitedProcessResult env opts path learnings visitedUrls i serpQuery progress st =
     (case workerStart env path learnings visitedUrls i serpQuery st of
        (Inl early, st1) \<Rightarrow> (early, progress, st1)
      | (Inr geminiResult, st1) \<Rightarrow>
          (case processSerpResult env (sq_query serpQuery)
                  \<lparr>sr_data = Some disabledSearch, sr_metadata = Some (True, [])\<rparr> 3 of
             Inl e \<Rightarrow>
               (case finallyReport progress st1 of
                  (progress', st') \<Rightarrow> (emptyProcessResult, progress', st'))
           | Inr newLearnings \<Rightarrow>
               (let newUrls = compact (map (\<lambda>item. case fr_url item of None \<Rightarrow> [] | Some u \<Rightarrow> u)
                                         disabledSearch)
                in case alloc (deref st1 learnings @ newLearnings) st1 of
                     (allLearnings, st2) \<Rightarrow>
                  (case alloc (deref st2 visitedUrls @ newUrls) st2 of
                     (allUrls, st3) \<Rightarrow>
                    if dro_depth opts - 1 > 0
                    then
                      (let progress1 = deeperProgress progress (dro_depth opts - 1)
                                         (newBreadthOf (dro_breadth opts)) (sq_query serpQuery);
                           st4 = (if dro_onProgress opts then emit (OnProgress progress1) st3 else st3)
                       in case deepResearch env (childOptions opts serpQuery allLearnings allUrls)
                                 (path @ [i]) st4 of
                            (Inl e, st5) \<Rightarrow>
                              (case finallyReport progress1 st5 of
                                 (progress', st') \<Rightarrow> (emptyProcessResult, progress', st'))
                          | (Inr deeper, st5) \<Rightarrow>
                              (case finallyReport progress1 st5 of
                                 (progress', st') \<Rightarrow> (fromDeeper deeper, progress', st')))
                    else
                      (case finallyReport progress st3 of
                         (progress', st') \<Rightarrow>
                           (leafResult geminiResult newLearnings newUrls, progress', st'))))))"
  by pat_completeness auto
termination
  by (relation "measures
        [\<lambda>x. case x of
            Inl (env, opts, path, st) \<Rightarrow> nat (dro_depth opts)
          | Inr (Inl (env, opts, path, learnings, visitedUrls, i, qs, progress, st)) \<Rightarrow>
              nat (dro_depth opts)
          | Inr (Inr (env, opts, path, learnings, visitedUrls, i, q, progress, st)) \<Rightarrow>
              nat (dro_depth opts),
         \<lambda>x. case x of
            Inl (env, opts, path, st) \<Rightarrow> 2
          | Inr (Inl (env, opts, path, learnings, visitedUrls, i, qs, progress, st)) \<Rightarrow> 1
          | Inr (Inr (env, opts, path, learnings, visitedUrls, i, q, progress, st)) \<Rightarrow> 0,
         \<lambda>x. case x of
            Inl (env, opts, path, st) \<Rightarrow> 0
          | Inr (Inl (env, opts, path, learnings, visitedUrls, i, qs, progress, st)) \<Rightarrow> length qs
          | Inr (Inr (env, opts, path, learnings, visitedUrls, i, q, progress, st)) \<Rightarrow> 0]")
    (auto simp: childOptions_def)

declare deepResearch.simps [simp del]
declare limitedProcessResult.simps [simp del]

text \<open>
  A sample environment: every invocation gets as many sub-queries as its breadth, the
  service answers every request, and the answers parse.
\<close>

definition sampleResearchEnv :: ResearchEnv where
  "sampleResearchEnv =
     \<lparr>ConcurrencyLimit = Some 5,
      batchConcurrency = 5,
      generateSerpQueries =
        (\<lambda>path args. map (\<lambda>k. \<lparr>sq_query = sa_query args @ ''.'' @ showNat k,
                                 sq_researchGoal = sa_researchGoal args\<rparr>)
                           [0..<nat (sa_numQueries args)]),
      callGeminiProConfigurable = (\<lambda>path i prompt. Inr ''{}''),
      processGeminiResponse =
        (\<lambda>text. Inr \<lparr>pg_analysis = [], pg_learnings = [''a learning''], pg_urls = [],
                      pg_citations = []\<rparr>),
      generateGeminiPrompt = (\<lambda>query goal learnings. query),
      learningPrompt = (\<lambda>query title url chunk. chunk),
      generateContent = (\<lambda>prompt. Inr ''{}''),
      parseLearnings = (\<lambda>text. Inr (Some [''a learning''])),
      hostname = (\<lambda>url. None),
      batchSchedule = []\<rparr>"

definition sampleOptions :: "int \<Rightarrow> int \<Rightarrow> DeepResearchOptions" where
  "sampleOptions depth breadth =
     \<lparr>dro_query = ''q'', dro_depth = depth, dro_breadth = breadth, dro_learnings = Some 0,
      dro_visitedUrls = Some 1, dro_onProgress = False, dro_initialQuery = ''q'',
      dro_researchGoal = ''Deep dive research''\<rparr>"

text \<open>A state with the caller's two arrays: one learning at address 0, no visited source at 1.\<close>

definition sampleState :: DRState where
  "sampleState = \<lparr>store = [[''known''], []], events = []\<rparr>"

section \<open>Predicates used in the proofs\<close>

text \<open>
  The invariant of a batch over the items \<open>xs\<close> (all defined): the workers in flight are
  distinct, started, and carry their worker's outcome; every started item that is no longer
  in flight has stored its result or rejected the promise; a rejection carries the failure
  of some item; the promise is resolved only when every item has finished without failure.
\<close>

definition finished :: "('a \<Rightarrow> nat \<Rightarrow> 'e + 'r) \<Rightarrow> 'a list \<Rightarrow> ('e, 'r) pool \<Rightarrow> nat \<Rightarrow> bool" where
  "finished worker xs st i =
     (case worker (xs ! i) i of
        Inr r \<Rightarrow> results st ! i = Some r
      | Inl e \<Rightarrow> (\<exists>e'. promise st = Rejected e'))"

definition poolInv :: "('a \<Rightarrow> nat \<Rightarrow> 'e + 'r) \<Rightarrow> 'a list \<Rightarrow> ('e, 'r) pool \<Rightarrow> bool" where
  "poolInv worker xs st \<longleftrightarrow>
     index st \<le> length xs \<and> length (results st) = length xs \<and>
     distinct (map fst (inFlight st)) \<and>
     (\<forall>p \<in> set (inFlight st). fst p < index st \<and> snd p = worker (xs ! fst p) (fst p)) \<and>
     (\<forall>i < index st. i \<notin> fst ` set (inFlight st) \<longrightarrow> finished worker xs st i) \<and>
     (\<forall>e. promise st = Rejected e \<longrightarrow> (\<exists>i < length xs. worker (xs ! i) i = Inl e)) \<and>
     (\<forall>rs. promise st = Resolved rs \<longrightarrow>
        rs = results st \<and> index st = length xs \<and> inFlight st = [] \<and>
        (\<forall>i < length xs. \<exists>r. worker (xs ! i) i = Inr r))"

definition poolStable :: "'a list \<Rightarrow> ('e, 'r) pool \<Rightarrow> bool" where
  "poolStable xs st \<longleftrightarrow> (inFlight st = [] \<longrightarrow> index st = length xs \<and> promise st \<noteq> Pending)"

definition poolRemaining :: "'a list \<Rightarrow> ('e, 'r) pool \<Rightarrow> nat" where
  "poolRemaining xs st = (length xs - index st) + length (inFlight st)"

text \<open>A string that \<open>JSON.stringify\<close> quotes without escaping any of its code units.\<close>

definition plain :: "string \<Rightarrow> bool" where
  "plain s \<longleftrightarrow> (\<forall>c \<in> set s. 32 \<le> (of_char c :: nat) \<and> (of_char c :: nat) \<noteq> 34 \<and> (of_char c :: nat) \<noteq> 92)"

text \<open>
  An event of a run that starts at the invocation \<open>path\<close> with \<open>depth\<close> and \<open>breadth\<close>
  fits the budget when, if it is an invocation, it lies \<open>k\<close> levels below \<open>path\<close>, its
  depth is \<open>depth - k\<close>, its breadth is \<open>breadth\<close> halved upwards \<open>k\<close> times, and, below
  the start, its depth is at least one, so that \<open>k\<close> stays below \<open>depth\<close>.
\<close>

definition descends :: "nat list \<Rightarrow> int \<Rightarrow> int \<Rightarrow> event \<Rightarrow> bool" where
  "descends path depth breadth ev =
     (case ev of
        Invoked q d b \<Rightarrow>
          take (length path) q = path \<and>
          d = depth - int (length q - length path) \<and>
          b = (newBreadthOf ^^ (length q - length path)) breadth \<and>
          (length path < length q \<longrightarrow> 1 \<le> d \<and> int (length q - length path) < depth)
      | _ \<Rightarrow> True)"

text \<open>
  What a run from \<open>st\<close> to \<open>st'\<close> keeps: the arrays that exist in \<open>st\<close> are unchanged in
  \<open>st'\<close> (the store has only grown), and the events added all fit the budget.
\<close>

definition runOK :: "nat list \<Rightarrow> int \<Rightarrow> int \<Rightarrow> DRState \<Rightarrow> DRState \<Rightarrow> bool" where
  "runOK path depth breadth st st' \<longleftrightarrow>
     take (length (store st)) (store st') = store st \<and> length (store st) \<le> length (store st') \<and>
     take (length (events st)) (events st') = events st \<and> length (events st) \<le> length (events st') \<and>
     list_all (descends path depth breadth) (drop (length (events st)) (events st'))"

definition noFindings :: "ProcessResult \<Rightarrow> bool" where
  "noFindings r \<longleftrightarrow> pr_learnings r = [] \<and> pr_visitedUrls r = []"

text \<open>
  What every invocation of \<open>deepResearch\<close> is shown to satisfy: its run keeps the store
  and the budget, and a result it returns holds no learning and no visited source.
\<close>

definition researchOK :: "ResearchEnv \<Rightarrow> DeepResearchOptions \<Rightarrow> nat list \<Rightarrow> DRState \<Rightarrow> bool" where
  "researchOK env opts path st \<longleftrightarrow>
     runOK path (dro_depth opts) (dro_breadth opts) st (snd (deepResearch env opts path st)) \<and>
     (case fst (deepResearch env opts path st) of
        Inl e \<Rightarrow> True
      | Inr r \<Rightarrow> rr_learnings r = [] \<and> rr_visitedUrls r = [])"

section \<open>The structural splitter: chunk sizes\<close>


lemma length_trim_le: "length (trim s) \<le> length s"
proof -
  have "length (dropWhile isWhitespace (rev (dropWhile isWhitespace s))) \<le> length (rev (dropWhile isWhitespace s))"
    by (rule length_dropWhile_le)
  also have "\<dots> \<le> length s" by (simp add: length_dropWhile_le)
  finally show ?thesis by (simp add: trim_def)
qed

lemma length_collapseWhitespace_le: "length (collapseWhitespace s) \<le> length s"
proof (induction s rule: collapseWhitespace.induct)
  case 1
  then show ?case by simp
next
  case (2 c cs)
  show ?case
  proof (cases "isWhitespace c")
    case True
    have "length (dropWhile isWhitespace cs) \<le> length cs" by (rule length_dropWhile_le)
    with 2(1)[OF True] True show ?thesis by simp
  next
    case False
    with 2(2) show ?thesis by simp
  qed
qed

lemma length_js_slice_le:
  "0 \<le> i \<Longrightarrow> 0 \<le> target \<Longrightarrow> int (length (js_slice s i (min (i + target) (int (length s))))) \<le> target"
  by (auto simp: js_slice_def Let_def min_def)

lemma hardCut_bounded:
  "0 \<le> target \<Longrightarrow> 0 \<le> i \<Longrightarrow> c \<in> set (hardCut target overlap trimmed i) \<Longrightarrow> int (length c) \<le> target"
proof (induction target overlap trimmed i rule: hardCut.induct)
  case (1 target overlap trimmed i)
  show ?case
  proof (cases "i < int (length trimmed)")
    case False
    with "1.prems" show ?thesis by (subst (asm) hardCut.simps) simp
  next
    case True
    let ?piece = "trim (js_slice trimmed i (min (i + target) (int (length trimmed))))"
    have pl: "int (length ?piece) \<le> target"
      using length_trim_le[of "js_slice trimmed i (min (i + target) (int (length trimmed)))"]
        length_js_slice_le[OF "1.prems"(2) "1.prems"(1), of trimmed] by linarith
    from "1.prems"(3) True have "c = ?piece \<or> c \<in> set (hardCut target overlap trimmed (i + max 1 (target - overlap)))"
      by (subst (asm) hardCut.simps) (auto simp: Let_def split: if_splits)
    then show ?thesis
    proof
      assume "c = ?piece" with pl show ?thesis by simp
    next
      assume "c \<in> set (hardCut target overlap trimmed (i + max 1 (target - overlap)))"
      moreover have "0 \<le> i + max 1 (target - overlap)" using "1.prems"(2) by simp
      ultimately show ?thesis using "1.IH"[OF True refl] "1.prems"(1) by blast
    qed
  qed
qed

lemma split_bounded:
  "0 \<le> target \<Longrightarrow> c \<in> set (splitRecursive seps target overlap t sepIdx) \<Longrightarrow> int (length c) \<le> target"
  "0 \<le> target \<Longrightarrow> int (length buffer) \<le> target \<Longrightarrow>
     c \<in> set (mergeParts seps target overlap sepIdx buffer parts) \<Longrightarrow> int (length c) \<le> target"
proof (induction seps target overlap t sepIdx and seps target overlap sepIdx buffer parts
       rule: splitRecursive_mergeParts.induct)
  case (1 seps target overlap t sepIdx)
  from "1.prems"(2) show ?case
    apply (subst (asm) splitRecursive.simps)
    apply (simp add: Let_def split: if_splits)
    using "1.prems"(1) "1.IH" length_trim_le hardCut_bounded[of target 0]
       apply (auto simp: Let_def)
    done
next
  case (2 seps target overlap sepIdx buffer)
  then show ?case by (auto split: if_splits)
next
  case (3 seps target overlap sepIdx buffer part parts)
  then show ?case
    by (auto simp: Let_def split: if_splits)
qed


text \<open>
  C4 (amended). For every text and every configuration with a non-negative chunk size
  and an overlap below it, every chunk that splitText returns is non-empty and, after the
  collapsing of white space runs and the trimming, at most chunkSize code units long.
\<close>

theorem splitText_chunks_bounded:
  assumes "chunkOverlap sp < chunkSize sp" and "0 \<le> chunkSize sp"
  shows "\<forall>c \<in> set (splitText sp text). c \<noteq> [] \<and> int (length c) \<le> chunkSize sp"
proof
  fix c assume c: "c \<in> set (splitText sp text)"
  then obtain r where r: "r \<in> set (splitRecursive (separators sp) (chunkSize sp) (chunkOverlap sp) text 0)"
    and cr: "c = trim (collapseWhitespace r)" and ne: "c \<noteq> []"
    by (auto simp: splitText_def split: if_splits)
  have "int (length r) \<le> chunkSize sp"
    using split_bounded(1)[OF assms(2) r] .
  moreover have "length c \<le> length r"
    unfolding cr using length_trim_le[of "collapseWhitespace r"] length_collapseWhitespace_le[of r]
    by linarith
  ultimately show "c \<noteq> [] \<and> int (length c) \<le> chunkSize sp" using ne by linarith
qed

theorem splitText_chunks_bounded_witness:
  "set (splitText \<lparr>chunkSize = 5, chunkOverlap = 1, separators = defaultSeparators\<rparr> ''hello world. this is,a  test of things'')
     = set [''hello'', ''world'', ''this'', ''is'', ''a'', ''test'', ''of'', ''thing'', ''gs'']
   \<and> list_all (\<lambda>c. c \<noteq> [] \<and> int (length c) \<le> 5)
        (splitText \<lparr>chunkSize = 5, chunkOverlap = 1, separators = defaultSeparators\<rparr> ''hello world. this is,a  test of things'')"
proof -
  let ?sp = "\<lparr>chunkSize = 5, chunkOverlap = 1, separators = defaultSeparators\<rparr>"
  have 1: "chunkOverlap ?sp < chunkSize ?sp" by simp
  have 2: "0 \<le> chunkSize ?sp" by simp
  have v: "splitText ?sp ''hello world. this is,a  test of things''
     = [''hello'', ''world'', ''this'', ''is'', ''a'', ''test'', ''of'', ''thing'', ''gs'']"
    by code_simp
  from splitText_chunks_bounded[OF 1 2, of "''hello world. this is,a  test of things''"] v
  show ?thesis by (simp add: list_all_iff)
qed

text \<open>
  C4 as stated fails for a negative chunk size: the constructor accepts the size -1 with
  the overlap -2, and the hard cut then slices with a negative end index, which counts
  from the end of the string; the text ab yields the chunk a, longer than the size.
\<close>

theorem splitText_negative_size_counterexample:
  "newRecursiveCharacterTextSplitter (Some (- 1)) (Some (- 2)) None
     = Inr \<lparr>chunkSize = - 1, chunkOverlap = - 2, separators = defaultSeparators\<rparr>
   \<and> splitText \<lparr>chunkSize = - 1, chunkOverlap = - 2, separators = defaultSeparators\<rparr> ''ab''
     = [''a'']
   \<and> \<not> int (length ''a'')
        \<le> chunkSize \<lparr>chunkSize = - 1, chunkOverlap = - 2, separators = defaultSeparators\<rparr>"
proof -
  have "splitText \<lparr>chunkSize = - 1, chunkOverlap = - 2, separators = defaultSeparators\<rparr> ''ab'' = [''a'']"
    by code_simp
  then show ?thesis by (simp add: newRecursiveCharacterTextSplitter_def)
qed


section \<open>The batch executor: completion and failure\<close>


lemma launchLoop_inv:
  "items = map Some xs \<Longrightarrow> poolInv worker xs st \<Longrightarrow> poolInv worker xs (launchLoop items limit worker st)"
proof (induction items limit worker st rule: launchLoop.induct)
  case (1 items limit worker st)
  show ?case
  proof (cases "int (length (inFlight st)) < limit \<and> index st < length items")
    case False
    then show ?thesis using "1.prems" by (subst launchLoop.simps) auto
  next
    case True
    then have lt: "index st < length xs" using "1.prems"(1) by simp
    then have it: "items ! index st = Some (xs ! index st)" using "1.prems"(1) by simp
    let ?st' = "st\<lparr>index := Suc (index st),
                      inFlight := inFlight st @ [(index st, worker (xs ! index st) (index st))]\<rparr>"
    have nres: "\<forall>rs. promise st \<noteq> Resolved rs"
      using "1.prems"(2) lt by (auto simp: poolInv_def)
    have fresh: "index st \<notin> fst ` set (inFlight st)"
      using "1.prems"(2) by (fastforce simp: poolInv_def)
    have fin: "\<And>i. finished worker xs ?st' i = finished worker xs st i"
      by (simp add: finished_def split: sum.splits)
    have "poolInv worker xs ?st'"
      unfolding poolInv_def
    proof (intro conjI)
      show "index ?st' \<le> length xs" using lt by simp
      show "length (results ?st') = length xs" using "1.prems"(2) by (simp add: poolInv_def)
      show "distinct (map fst (inFlight ?st'))"
        using "1.prems"(2) fresh by (simp add: poolInv_def)
      show "\<forall>p\<in>set (inFlight ?st'). fst p < index ?st' \<and> snd p = worker (xs ! fst p) (fst p)"
        using "1.prems"(2) by (auto simp: poolInv_def less_Suc_eq)
      show "\<forall>i<index ?st'. i \<notin> fst ` set (inFlight ?st') \<longrightarrow> finished worker xs ?st' i"
        using "1.prems"(2) unfolding fin by (auto simp: poolInv_def less_Suc_eq)
      show "\<forall>e. promise ?st' = Rejected e \<longrightarrow> (\<exists>i<length xs. worker (xs ! i) i = Inl e)"
        using "1.prems"(2) by (simp add: poolInv_def)
      show "\<forall>rs. promise ?st' = Resolved rs \<longrightarrow>
        rs = results ?st' \<and> index ?st' = length xs \<and> inFlight ?st' = [] \<and>
        (\<forall>i < length xs. \<exists>r. worker (xs ! i) i = Inr r)"
        using nres by simp
    qed
    from "1.IH"(2)[OF True it "1.prems"(1) this] True it
    show ?thesis by (subst launchLoop.simps) simp
  qed
qed

lemma launchLoop_remaining:
  "items = map Some xs \<Longrightarrow> index st \<le> length xs \<Longrightarrow>
   poolRemaining xs (launchLoop items limit worker st) = poolRemaining xs st"
proof (induction items limit worker st rule: launchLoop.induct)
  case (1 items limit worker st)
  show ?case
  proof (cases "int (length (inFlight st)) < limit \<and> index st < length items")
    case False
    then show ?thesis by (subst launchLoop.simps) auto
  next
    case True
    then have lt: "index st < length xs" using "1.prems"(1) by simp
    then have it: "items ! index st = Some (xs ! index st)" using "1.prems"(1) by simp
    let ?st' = "st\<lparr>index := Suc (index st),
                      inFlight := inFlight st @ [(index st, worker (xs ! index st) (index st))]\<rparr>"
    have "poolRemaining xs (launchLoop items limit worker ?st') = poolRemaining xs ?st'"
      using "1.IH"(2)[OF True it "1.prems"(1)] lt by simp
    also have "\<dots> = poolRemaining xs st" using lt by (simp add: poolRemaining_def)
    finally show ?thesis using True it by (subst launchLoop.simps) simp
  qed
qed

lemma launchLoop_nonempty:
  "items = map Some xs \<Longrightarrow> inFlight st \<noteq> [] \<Longrightarrow> inFlight (launchLoop items limit worker st) \<noteq> []"
proof (induction items limit worker st rule: launchLoop.induct)
  case (1 items limit worker st)
  show ?case
  proof (cases "int (length (inFlight st)) < limit \<and> index st < length items")
    case False
    then show ?thesis using "1.prems" by (subst launchLoop.simps) auto
  next
    case True
    then have lt: "index st < length xs" using "1.prems"(1) by simp
    then have it: "items ! index st = Some (xs ! index st)" using "1.prems"(1) by simp
    from "1.IH"(2)[OF True it "1.prems"(1)] True it
    show ?thesis by (subst launchLoop.simps) simp
  qed
qed

lemma launchLoop_stable:
  assumes "1 \<le> limit" and "\<not> (index st \<ge> length xs \<and> inFlight st = [])"
  shows "inFlight (launchLoop (map Some xs) limit worker st) \<noteq> []"
proof (cases "inFlight st = []")
  case False
  then show ?thesis by (rule launchLoop_nonempty[OF refl])
next
  case True
  with assms have lt: "index st < length xs" by simp
  let ?st' = "st\<lparr>index := Suc (index st),
                    inFlight := inFlight st @ [(index st, worker (xs ! index st) (index st))]\<rparr>"
  have "inFlight (launchLoop (map Some xs) limit worker ?st') \<noteq> []"
    by (rule launchLoop_nonempty[OF refl]) simp
  then show ?thesis using True lt assms(1) by (subst launchLoop.simps) simp
qed

lemma nextStep_inv:
  assumes "poolInv worker xs st"
  shows "poolInv worker xs (nextStep (map Some xs) limit worker st)"
proof (cases "index st \<ge> length xs \<and> inFlight st = []")
  case False
  then have "nextStep (map Some xs) limit worker st = launchLoop (map Some xs) limit worker st"
    by (auto simp: nextStep_def)
  then show ?thesis using launchLoop_inv[OF refl assms] by simp
next
  case True
  show ?thesis
  proof (cases "promise st = Pending")
    case False
    then have "nextStep (map Some xs) limit worker st = st"
      using True by (simp add: nextStep_def settle_def)
    then show ?thesis using assms by simp
  next
    case pend: True
    let ?st' = "st\<lparr>promise := Resolved (results st)\<rparr>"
    have eq: "nextStep (map Some xs) limit worker st = ?st'"
      using True pend by (simp add: nextStep_def settle_def)
    have idx: "index st = length xs" using True assms by (simp add: poolInv_def)
    have allok: "\<forall>i < length xs. \<exists>r. worker (xs ! i) i = Inr r"
    proof (intro allI impI)
      fix i assume "i < length xs"
      then have "finished worker xs st i" using assms True idx by (simp add: poolInv_def)
      then show "\<exists>r. worker (xs ! i) i = Inr r"
        using pend by (cases "worker (xs ! i) i") (auto simp: finished_def)
    qed
    have "poolInv worker xs ?st'"
      unfolding poolInv_def
    proof (intro conjI)
      show "index ?st' \<le> length xs" using idx by simp
      show "length (results ?st') = length xs" using assms by (simp add: poolInv_def)
      show "distinct (map fst (inFlight ?st'))" using True by simp
      show "\<forall>p\<in>set (inFlight ?st'). fst p < index ?st' \<and> snd p = worker (xs ! fst p) (fst p)"
        using True by simp
      show "\<forall>i<index ?st'. i \<notin> fst ` set (inFlight ?st') \<longrightarrow> finished worker xs ?st' i"
      proof (intro allI impI)
        fix i assume "i < index ?st'"
        then have i: "i < length xs" using idx by simp
        then have "finished worker xs st i" using assms True idx by (simp add: poolInv_def)
        moreover obtain r where "worker (xs ! i) i = Inr r" using allok i by blast
        ultimately show "finished worker xs ?st' i" by (simp add: finished_def)
      qed
      show "\<forall>e. promise ?st' = Rejected e \<longrightarrow> (\<exists>i<length xs. worker (xs ! i) i = Inl e)"
        by simp
      show "\<forall>rs. promise ?st' = Resolved rs \<longrightarrow>
        rs = results ?st' \<and> index ?st' = length xs \<and> inFlight ?st' = [] \<and>
        (\<forall>i < length xs. \<exists>r. worker (xs ! i) i = Inr r)"
        using idx True allok by auto
    qed
    then show ?thesis using eq by simp
  qed
qed

lemma nextStep_stable:
  assumes "1 \<le> limit" and "index st \<le> length xs"
  shows "poolStable xs (nextStep (map Some xs) limit worker st)"
proof (cases "index st \<ge> length xs \<and> inFlight st = []")
  case True
  then show ?thesis using assms(2)
    by (auto simp: nextStep_def poolStable_def settle_def)
next
  case False
  then have "nextStep (map Some xs) limit worker st = launchLoop (map Some xs) limit worker st"
    by (auto simp: nextStep_def)
  then show ?thesis using launchLoop_stable[OF assms(1) False, of worker]
    by (simp add: poolStable_def)
qed

lemma nextStep_remaining:
  assumes "index st \<le> length xs"
  shows "poolRemaining xs (nextStep (map Some xs) limit worker st) = poolRemaining xs st"
proof (cases "index st \<ge> length xs \<and> inFlight st = []")
  case True
  then show ?thesis by (simp add: nextStep_def poolRemaining_def)
next
  case False
  then have "nextStep (map Some xs) limit worker st = launchLoop (map Some xs) limit worker st"
    by (auto simp: nextStep_def)
  then show ?thesis using launchLoop_remaining[OF refl assms] by simp
qed

text \<open>The state after the handlers of one finished worker, before next runs.\<close>

lemma finish_inv:
  assumes inv: "poolInv worker xs st" and k: "k < length (inFlight st)"
    and p: "inFlight st ! k = (i, out)"
  defines "st1 \<equiv> (case out of
                        Inr res \<Rightarrow> st\<lparr>results := (results st)[i := Some res]\<rparr>
                      | Inl e \<Rightarrow> st\<lparr>promise := settle (Rejected e) (promise st)\<rparr>)"
  defines "st2 \<equiv> st1\<lparr>inFlight := take k (inFlight st1) @ drop (Suc k) (inFlight st1)\<rparr>"
  shows "poolInv worker xs st2" and "poolRemaining xs st2 < poolRemaining xs st"
    and "index st2 \<le> length xs"
proof -
  have mem: "(i, out) \<in> set (inFlight st)" using k p by (metis nth_mem)
  have i_lt: "i < index st" and out: "out = worker (xs ! i) i"
    using inv mem by (auto simp: poolInv_def)
  have idx: "index st \<le> length xs" and len: "length (results st) = length xs"
    using inv by (auto simp: poolInv_def)
  have nres: "\<forall>rs. promise st \<noteq> Resolved rs"
    using inv k by (auto simp: poolInv_def)
  have fl1: "inFlight st1 = inFlight st" and ix1: "index st1 = index st"
    by (auto simp: st1_def split: sum.splits)
  define rest where "rest = take k (inFlight st) @ drop (Suc k) (inFlight st)"
  have fl2: "inFlight st2 = rest" by (simp add: st2_def fl1 rest_def)
  have split: "inFlight st = take k (inFlight st) @ (i, out) # drop (Suc k) (inFlight st)"
    using k p by (metis id_take_nth_drop)
  have dist: "distinct (map fst (inFlight st))" using inv by (simp add: poolInv_def)
  have dist_rest: "distinct (map fst rest)" and i_notin: "i \<notin> fst ` set rest"
    and set_rest: "set rest \<subseteq> set (inFlight st)"
    and fst_rest: "fst ` set (inFlight st) = insert i (fst ` set rest)"
  proof -
    from dist split have d: "distinct (map fst (take k (inFlight st) @ (i, out) # drop (Suc k) (inFlight st)))"
      by simp
    then show "distinct (map fst rest)" by (simp add: rest_def)
    from d show "i \<notin> fst ` set rest" by (auto simp: rest_def)
    show "set rest \<subseteq> set (inFlight st)"
      unfolding rest_def by (auto dest: in_set_takeD in_set_dropD)
    have "fst ` set (inFlight st) = fst ` set (take k (inFlight st) @ (i, out) # drop (Suc k) (inFlight st))"
      using split by simp
    then show "fst ` set (inFlight st) = insert i (fst ` set rest)"
      by (simp add: rest_def image_Un Un_commute insert_commute)
  qed
  have res1: "\<And>j. j \<noteq> i \<Longrightarrow> results st2 ! j = results st ! j"
    by (auto simp: st2_def st1_def split: sum.splits)
  have rej_mono: "\<And>e'. promise st = Rejected e' \<Longrightarrow> promise st2 = Rejected e'"
    by (auto simp: st2_def st1_def settle_def split: sum.splits)
  have fin_other: "\<And>j. j \<noteq> i \<Longrightarrow> finished worker xs st j \<Longrightarrow> finished worker xs st2 j"
    using res1 rej_mono by (auto simp: finished_def split: sum.splits)
  have fin_i: "finished worker xs st2 i"
  proof (cases out)
    case (Inr r)
    then show ?thesis using out i_lt idx len
      by (simp add: finished_def st2_def st1_def)
  next
    case (Inl e)
    then show ?thesis using out nres
      by (cases "promise st") (auto simp: finished_def st2_def st1_def settle_def)
  qed
  show "index st2 \<le> length xs" using idx by (simp add: st2_def ix1)
  show "poolRemaining xs st2 < poolRemaining xs st"
    using k by (simp add: poolRemaining_def st2_def ix1 fl1)
  show "poolInv worker xs st2"
    unfolding poolInv_def
  proof (intro conjI)
    show "index st2 \<le> length xs" using idx by (simp add: st2_def ix1)
    show "length (results st2) = length xs"
      using len by (auto simp: st2_def st1_def split: sum.splits)
    show "distinct (map fst (inFlight st2))" using dist_rest fl2 by simp
    show "\<forall>p\<in>set (inFlight st2). fst p < index st2 \<and> snd p = worker (xs ! fst p) (fst p)"
      using inv set_rest fl2 by (auto simp: poolInv_def st2_def ix1)
    show "\<forall>j<index st2. j \<notin> fst ` set (inFlight st2) \<longrightarrow> finished worker xs st2 j"
    proof (intro allI impI)
      fix j assume j: "j < index st2" and nin: "j \<notin> fst ` set (inFlight st2)"
      show "finished worker xs st2 j"
      proof (cases "j = i")
        case True then show ?thesis using fin_i by simp
      next
        case False
        then have "j \<notin> fst ` set (inFlight st)" using nin fl2 fst_rest by simp
        moreover have "j < index st" using j by (simp add: st2_def ix1)
        ultimately have "finished worker xs st j" using inv by (simp add: poolInv_def)
        then show ?thesis using fin_other False by simp
      qed
    qed
    show "\<forall>e. promise st2 = Rejected e \<longrightarrow> (\<exists>i<length xs. worker (xs ! i) i = Inl e)"
    proof (intro allI impI)
      fix e assume r: "promise st2 = Rejected e"
      show "\<exists>i<length xs. worker (xs ! i) i = Inl e"
      proof (cases "promise st = Rejected e")
        case True then show ?thesis using inv by (simp add: poolInv_def)
      next
        case False
        then have "out = Inl e" using r nres
          by (cases out; cases "promise st") (auto simp: st2_def st1_def settle_def)
        then show ?thesis using out i_lt idx by (intro exI[of _ i]) simp
      qed
    qed
    show "\<forall>rs. promise st2 = Resolved rs \<longrightarrow>
        rs = results st2 \<and> index st2 = length xs \<and> inFlight st2 = [] \<and>
        (\<forall>i < length xs. \<exists>r. worker (xs ! i) i = Inr r)"
      using nres by (cases out; cases "promise st") (auto simp: st2_def st1_def settle_def)
  qed
qed

lemma complete_inv:
  assumes "1 \<le> limit" and "poolInv worker xs st" and "k < length (inFlight st)"
  shows "poolInv worker xs (complete (map Some xs) limit worker k st)"
    and "poolStable xs (complete (map Some xs) limit worker k st)"
    and "poolRemaining xs (complete (map Some xs) limit worker k st) < poolRemaining xs st"
proof -
  obtain i out where p: "inFlight st ! k = (i, out)" by (cases "inFlight st ! k")
  define st1 where "st1 = (case out of
                        Inr res \<Rightarrow> st\<lparr>results := (results st)[i := Some res]\<rparr>
                      | Inl e \<Rightarrow> st\<lparr>promise := settle (Rejected e) (promise st)\<rparr>)"
  define st2 where "st2 = st1\<lparr>inFlight := take k (inFlight st1) @ drop (Suc k) (inFlight st1)\<rparr>"
  have c: "complete (map Some xs) limit worker k st = nextStep (map Some xs) limit worker st2"
    by (simp add: complete_def p st1_def st2_def Let_def)
  note f = finish_inv[OF assms(2,3) p, folded st1_def, folded st2_def]
  show "poolInv worker xs (complete (map Some xs) limit worker k st)"
    unfolding c using f(1) by (rule nextStep_inv)
  show "poolStable xs (complete (map Some xs) limit worker k st)"
    unfolding c using assms(1) f(3) by (rule nextStep_stable)
  show "poolRemaining xs (complete (map Some xs) limit worker k st) < poolRemaining xs st"
    unfolding c using nextStep_remaining[OF f(3), of limit worker] f(2) by simp
qed

lemma drain_inv:
  assumes "1 \<le> limit"
  shows "poolInv worker xs st \<Longrightarrow> poolStable xs st \<Longrightarrow> poolRemaining xs st \<le> length sched \<Longrightarrow>
    poolInv worker xs (drain (map Some xs) limit worker sched st) \<and>
    poolStable xs (drain (map Some xs) limit worker sched st) \<and>
    inFlight (drain (map Some xs) limit worker sched st) = []"
proof (induction sched arbitrary: st)
  case Nil
  then show ?case by (simp add: poolRemaining_def)
next
  case (Cons k ks)
  show ?case
  proof (cases "inFlight st = []")
    case True
    then show ?thesis using Cons.prems by simp
  next
    case False
    let ?k = "k mod length (inFlight st)"
    have klt: "?k < length (inFlight st)" using False by simp
    note c = complete_inv[OF assms Cons.prems(1) klt]
    have "poolRemaining xs (complete (map Some xs) limit worker ?k st) \<le> length ks"
      using c(3) Cons.prems(3) by simp
    from Cons.IH[OF c(1) c(2) this] False show ?thesis by simp
  qed
qed

lemma initialPool_inv: "poolInv worker xs (initialPool (map Some xs))"
  by (simp add: poolInv_def initialPool_def)

lemma runWithConcurrency_final:
  assumes "1 \<le> limit" and "length xs \<le> length sched"
  shows "poolInv worker xs (runWithConcurrency (map Some xs) limit worker sched)"
    and "poolStable xs (runWithConcurrency (map Some xs) limit worker sched)"
    and "inFlight (runWithConcurrency (map Some xs) limit worker sched) = []"
proof -
  let ?s0 = "nextStep (map Some xs) limit worker (initialPool (map Some xs))"
  have i0: "poolInv worker xs ?s0" by (rule nextStep_inv[OF initialPool_inv])
  have ix: "index (initialPool (map Some xs) :: ('b, 'c) pool) \<le> length xs" by (simp add: initialPool_def)
  have s0: "poolStable xs ?s0" by (rule nextStep_stable[OF assms(1) ix])
  have "poolRemaining xs ?s0 = poolRemaining xs (initialPool (map Some xs) :: ('b, 'c) pool)"
    by (rule nextStep_remaining[OF ix])
  then have r0: "poolRemaining xs ?s0 \<le> length sched"
    using assms(2) by (simp add: poolRemaining_def initialPool_def)
  from drain_inv[OF assms(1) i0 s0 r0]
  show "poolInv worker xs (runWithConcurrency (map Some xs) limit worker sched)"
    and "poolStable xs (runWithConcurrency (map Some xs) limit worker sched)"
    and "inFlight (runWithConcurrency (map Some xs) limit worker sched) = []"
    by (simp_all add: runWithConcurrency_def)
qed


text \<open>
  C1 (amended). With a limit of at least one and items that are all defined, under every
  order of completion every item is started and runs to completion, and the result of
  each successful worker is stored at its item's index. The promise resolves (with the
  results array) exactly when no worker fails; when a worker fails, the promise of the
  whole batch is rejected with the failure of one of the failing items: a failure is not
  kept as a per-item error.
\<close>

theorem runWithConcurrency_settles:
  assumes "1 \<le> limit" and "length xs \<le> length sched"
    and "fin = runWithConcurrency (map Some xs) limit worker sched"
  shows "inFlight fin = [] \<and> index fin = length xs \<and>
     (\<forall>i<length xs. \<forall>r. worker (xs ! i) i = Inr r \<longrightarrow> results fin ! i = Some r) \<and>
     ((\<forall>i<length xs. \<exists>r. worker (xs ! i) i = Inr r) \<longrightarrow> promise fin = Resolved (results fin)) \<and>
     ((\<exists>i<length xs. \<exists>e. worker (xs ! i) i = Inl e) \<longrightarrow>
        (\<exists>i<length xs. \<exists>e. worker (xs ! i) i = Inl e \<and> promise fin = Rejected e))"
proof -
  note f = runWithConcurrency_final[OF assms(1,2), of worker, folded assms(3)]
  have empty: "inFlight fin = []" by (rule f(3))
  have idx: "index fin = length xs" and np: "promise fin \<noteq> Pending"
    using f(2) empty by (auto simp: poolStable_def)
  have fin_all: "\<And>i. i < length xs \<Longrightarrow> finished worker xs fin i"
    using f(1) empty idx by (simp add: poolInv_def)
  have stored: "\<forall>i<length xs. \<forall>r. worker (xs ! i) i = Inr r \<longrightarrow> results fin ! i = Some r"
    using fin_all by (fastforce simp: finished_def)
  have rej: "\<And>e. promise fin = Rejected e \<Longrightarrow> \<exists>i<length xs. worker (xs ! i) i = Inl e"
    using f(1) by (simp add: poolInv_def)
  have res: "\<And>rs. promise fin = Resolved rs \<Longrightarrow>
      rs = results fin \<and> (\<forall>i < length xs. \<exists>r. worker (xs ! i) i = Inr r)"
    using f(1) by (simp add: poolInv_def)
  have ok: "(\<forall>i<length xs. \<exists>r. worker (xs ! i) i = Inr r) \<longrightarrow> promise fin = Resolved (results fin)"
  proof
    assume a: "\<forall>i<length xs. \<exists>r. worker (xs ! i) i = Inr r"
    show "promise fin = Resolved (results fin)"
    proof (cases "promise fin")
      case Pending then show ?thesis using np by simp
    next
      case (Resolved rs) then show ?thesis using res by simp
    next
      case (Rejected e)
      then obtain i where "i < length xs" "worker (xs ! i) i = Inl e" using rej by blast
      then show ?thesis using a by auto
    qed
  qed
  have bad: "(\<exists>i<length xs. \<exists>e. worker (xs ! i) i = Inl e) \<longrightarrow>
        (\<exists>i<length xs. \<exists>e. worker (xs ! i) i = Inl e \<and> promise fin = Rejected e)"
  proof
    assume a: "\<exists>i<length xs. \<exists>e. worker (xs ! i) i = Inl e"
    show "\<exists>i<length xs. \<exists>e. worker (xs ! i) i = Inl e \<and> promise fin = Rejected e"
    proof (cases "promise fin")
      case Pending then show ?thesis using np by simp
    next
      case (Resolved rs)
      then have "\<forall>i < length xs. \<exists>r. worker (xs ! i) i = Inr r" using res by simp
      then show ?thesis using a by auto
    next
      case (Rejected e)
      then show ?thesis using rej by blast
    qed
  qed
  from empty idx stored ok bad show ?thesis by blast
qed

theorem runWithConcurrency_settles_witness:
  "runWithConcurrency (map Some [1, 2, 3]) 2 failOnTwo [0, 0, 0]
     = \<lparr>results = [Some 10, None, Some 30], inFlight = [], index = 3,
        promise = Rejected ''boom''\<rparr>
   \<and> (\<exists>i<length [1, 2, 3 :: nat]. \<exists>e. failOnTwo ([1, 2, 3] ! i) i = Inl e \<and>
        promise (runWithConcurrency (map Some [1, 2, 3]) 2 failOnTwo [0, 0, 0]) = Rejected e)"
proof -
  have v: "runWithConcurrency (map Some [1, 2, 3]) 2 failOnTwo [0, 0, 0]
     = \<lparr>results = [Some 10, None, Some 30], inFlight = [], index = 3,
        promise = Rejected ''boom''\<rparr>"
    by code_simp
  have l: "(1::int) \<le> 2" and s: "length [1, 2, 3 :: nat] \<le> length [0, 0, 0 :: nat]" by simp_all
  have f: "\<exists>i<length [1, 2, 3 :: nat]. \<exists>e. failOnTwo ([1, 2, 3] ! i) i = Inl e"
    by (intro exI[of _ 1]) (simp add: failOnTwo_def)
  from runWithConcurrency_settles[OF l s refl, of failOnTwo] f v show ?thesis by blast
qed

text \<open>
  C1 as stated fails: with the items 1, 2, 3, a limit of two and a worker that fails on
  the item 2, the other two items finish, and the promise of the whole batch is rejected
  with the failure of the one item.
\<close>

theorem runWithConcurrency_rejects_counterexample:
  "promise (runWithConcurrency [Some 1, Some 2, Some 3] 2 failOnTwo [0, 0, 0]) = Rejected ''boom''
   \<and> results (runWithConcurrency [Some 1, Some 2, Some 3] 2 failOnTwo [0, 0, 0])
       = [Some 10, None, Some 30]"
  by code_simp


section \<open>The progress tracker: the estimate\<close>


lemma dTimeSec_pos: "0 < dTimeSec w"
  by (simp add: dTimeSec_def max_def)


lemma rate_zero_iff: "rate w = 0 \<longleftrightarrow> dCompleted w = 0"
  using dTimeSec_pos[of w] by (simp add: rate_def)







section \<open>The cache key: omitted defaults and the learnings hash\<close>


lemma escapeChar_plain:
  assumes "32 \<le> (of_char c :: nat)" "(of_char c :: nat) \<noteq> 34" "(of_char c :: nat) \<noteq> 92"
  shows "escapeChar c = [c]"
proof -
  have "c \<noteq> CHR 0x22" "c \<noteq> CHR 0x5C" "c \<noteq> CHR 0x08" "c \<noteq> CHR 0x0C" "c \<noteq> CHR 0x0A"
    "c \<noteq> CHR 0x0D" "c \<noteq> CHR 0x09"
    using assms by auto
  then show ?thesis using assms(1) by (simp add: escapeChar_def)
qed


lemma jsonQuote_plain: "plain s \<Longrightarrow> jsonQuote s = [CHR 0x22] @ s @ [CHR 0x22]"
proof -
  assume p: "plain s"
  have "concat (map escapeChar s) = s"
    using p
  proof (induction s)
    case Nil then show ?case by simp
  next
    case (Cons c cs)
    then have "escapeChar c = [c]" by (intro escapeChar_plain) (auto simp: plain_def)
    moreover have "plain cs" using Cons.prems by (simp add: plain_def)
    ultimately show ?case using Cons.IH by simp
  qed
  then show ?thesis by (simp add: jsonQuote_def)
qed

lemma plain_showNat: "plain (showNat n)"
proof (induction n rule: showNat.induct)
  case (1 n)
  have d: "\<And>d::nat. d < 10 \<Longrightarrow> plain [char_of (48 + d)]"
    by (simp add: plain_def)
  show ?case
  proof (cases "n < 10")
    case True
    then show ?thesis using d[of n] by (subst showNat.simps) simp
  next
    case False
    have "plain [char_of (48 + n mod 10)]" by (rule d) simp
    with "1.IH"[OF False] False show ?thesis
      by (subst showNat.simps) (auto simp: plain_def)
  qed
qed

lemma plain_learningsHash: "plain (learningsHash ls)"
proof -
  have "plain ''NaN''" by (simp add: plain_def)
  moreover have "plain ''''" by (simp add: plain_def)
  ultimately show ?thesis
    using plain_showNat by (simp add: learningsHash_def split: option.splits)
qed

lemma js_join_snoc: "ys \<noteq> [] \<Longrightarrow> js_join sep (ys @ [z]) = js_join sep ys @ sep @ z"
  by (induction sep ys rule: js_join.induct) auto

lemma keyObject_split:
  "\<exists>pre. pre \<noteq> [] \<and> (\<forall>ls. List.map_filter stringifyProperty (keyObject (a\<lparr>sa_learnings := ls\<rparr>))
      = pre @ [jsonQuote ''learningsHash'' @ '':'' @ jsonQuote (learningsHash ls)])"
proof -
  define front where "front =
     [(''rawQuery'', JStr (sa_query a))] @
     (if sa_numQueries a = DEFAULT_NUM_QUERIES then [] else [(''numQueries'', JNum (sa_numQueries a))]) @
     (if sa_researchGoal a = ''Initial query'' then []
      else [(''researchGoal'', JStr (sa_researchGoal a))]) @
     (if sa_initialQuery a = Some (sa_query a) then []
      else [(''initialQuery'', (case sa_initialQuery a of None \<Rightarrow> JUndefined | Some v \<Rightarrow> JStr v))]) @
     (if sa_depth a = 1 then [] else [(''depth'', JNum (sa_depth a))]) @
     (if sa_breadth a = 1 then [] else [(''breadth'', JNum (sa_breadth a))])"
  have k: "\<And>ls. keyObject (a\<lparr>sa_learnings := ls\<rparr>) = front @ [(''learningsHash'', JStr (learningsHash ls))]"
    by (simp add: keyObject_def front_def)
  let ?pre = "List.map_filter stringifyProperty front"
  have "?pre \<noteq> []"
    by (simp add: front_def List.map_filter_def stringifyProperty_def)
  moreover have "\<forall>ls. List.map_filter stringifyProperty (keyObject (a\<lparr>sa_learnings := ls\<rparr>))
      = ?pre @ [jsonQuote ''learningsHash'' @ '':'' @ jsonQuote (learningsHash ls)]"
    unfolding k by (simp add: List.map_filter_def stringifyProperty_def)
  ultimately show ?thesis by blast
qed

lemma serpCacheKey_eq_iff:
  "serpCacheKey (a\<lparr>sa_learnings := l1\<rparr>) = serpCacheKey (a\<lparr>sa_learnings := l2\<rparr>)
     \<longleftrightarrow> learningsHash l1 = learningsHash l2"
proof -
  obtain pre where pre: "pre \<noteq> []"
    and sp: "\<And>ls. List.map_filter stringifyProperty (keyObject (a\<lparr>sa_learnings := ls\<rparr>))
      = pre @ [jsonQuote ''learningsHash'' @ '':'' @ jsonQuote (learningsHash ls)]"
    using keyObject_split[of a] by blast
  have key: "\<And>ls. serpCacheKey (a\<lparr>sa_learnings := ls\<rparr>)
      = (''{'' @ js_join '','' pre @ '','' @ jsonQuote ''learningsHash'' @ '':'' @ [CHR 0x22])
          @ learningsHash ls @ ([CHR 0x22] @ ''}'')"
    by (simp add: serpCacheKey_def stringifyObject_def sp js_join_snoc[OF pre]
        jsonQuote_plain[OF plain_learningsHash])
  show ?thesis unfolding key by simp
qed


text \<open>
  C7 (amended). The key object of the sub-query cache always holds rawQuery, holds each
  of numQueries, researchGoal, initialQuery, depth and breadth exactly when it differs
  from its default (3, Initial query, the query itself, 1, 1), and holds learningsHash:
  the decimal sum of the first code units of the learnings. Two learnings histories, all
  other fields equal, get the same key exactly when their learningsHash is the same, so
  different histories with equal sums share one fingerprint.
\<close>

theorem serpCacheKey_fingerprint:
  "(''rawQuery'', JStr (sa_query a)) \<in> set (keyObject a) \<and>
   (''numQueries'' \<in> fst ` set (keyObject a) \<longleftrightarrow> sa_numQueries a \<noteq> DEFAULT_NUM_QUERIES) \<and>
   (''researchGoal'' \<in> fst ` set (keyObject a) \<longleftrightarrow> sa_researchGoal a \<noteq> ''Initial query'') \<and>
   (''initialQuery'' \<in> fst ` set (keyObject a) \<longleftrightarrow> sa_initialQuery a \<noteq> Some (sa_query a)) \<and>
   (''depth'' \<in> fst ` set (keyObject a) \<longleftrightarrow> sa_depth a \<noteq> 1) \<and>
   (''breadth'' \<in> fst ` set (keyObject a) \<longleftrightarrow> sa_breadth a \<noteq> 1) \<and>
   (''learningsHash'', JStr (learningsHash (sa_learnings a))) \<in> set (keyObject a) \<and>
   (serpCacheKey (a\<lparr>sa_learnings := l1\<rparr>) = serpCacheKey (a\<lparr>sa_learnings := l2\<rparr>)
      \<longleftrightarrow> learningsHash l1 = learningsHash l2)"
proof -
  have 1: "(''rawQuery'', JStr (sa_query a)) \<in> set (keyObject a)"
    by (simp add: keyObject_def)
  have 2: "''numQueries'' \<in> fst ` set (keyObject a) \<longleftrightarrow> sa_numQueries a \<noteq> DEFAULT_NUM_QUERIES"
    by (simp add: keyObject_def)
  have 3: "''researchGoal'' \<in> fst ` set (keyObject a) \<longleftrightarrow> sa_researchGoal a \<noteq> ''Initial query''"
    by (simp add: keyObject_def)
  have 4: "''initialQuery'' \<in> fst ` set (keyObject a) \<longleftrightarrow> sa_initialQuery a \<noteq> Some (sa_query a)"
    by (simp add: keyObject_def)
  have 5: "''depth'' \<in> fst ` set (keyObject a) \<longleftrightarrow> sa_depth a \<noteq> 1"
    by (simp add: keyObject_def)
  have 6: "''breadth'' \<in> fst ` set (keyObject a) \<longleftrightarrow> sa_breadth a \<noteq> 1"
    by (simp add: keyObject_def)
  have 7: "(''learningsHash'', JStr (learningsHash (sa_learnings a))) \<in> set (keyObject a)"
    by (simp add: keyObject_def)
  show ?thesis using 1 2 3 4 5 6 7 serpCacheKey_eq_iff by (intro conjI)
qed

theorem serpCacheKey_fingerprint_witness:
  "keyObject (sampleSerpArgs [''ab''])
     = [(''rawQuery'', JStr ''q''), (''initialQuery'', JUndefined), (''learningsHash'', JStr ''97'')]
   \<and> learningsHash [''ab''] = ''97'' \<and> learningsHash [''b''] = ''98''
   \<and> serpCacheKey (sampleSerpArgs [''ab'']) \<noteq> serpCacheKey (sampleSerpArgs [''b''])"
proof -
  have k: "keyObject (sampleSerpArgs [''ab''])
     = [(''rawQuery'', JStr ''q''), (''initialQuery'', JUndefined), (''learningsHash'', JStr ''97'')]"
    by code_simp
  have h1: "learningsHash [''ab''] = ''97''" and h2: "learningsHash [''b''] = ''98''"
    by code_simp+
  have u: "\<And>ls. (sampleSerpArgs [])\<lparr>sa_learnings := ls\<rparr> = sampleSerpArgs ls"
    by (simp add: sampleSerpArgs_def serpArgs_def)
  have "serpCacheKey ((sampleSerpArgs [])\<lparr>sa_learnings := [''ab'']\<rparr>)
      = serpCacheKey ((sampleSerpArgs [])\<lparr>sa_learnings := [''b'']\<rparr>)
      \<longleftrightarrow> learningsHash [''ab''] = learningsHash [''b'']"
    using serpCacheKey_fingerprint[where a = "sampleSerpArgs []" and ?l1.0 = "[''ab'']" and ?l2.0 = "[''b'']"] by blast
  then have "serpCacheKey (sampleSerpArgs [''ab'']) \<noteq> serpCacheKey (sampleSerpArgs [''b''])"
    unfolding u h1 h2 by simp
  with k h1 h2 show ?thesis by (intro conjI)
qed

text \<open>
  C7 as stated fails: the histories ab and ac differ, every other field is equal, and
  both get the key with the learningsHash 97.
\<close>

theorem serpCacheKey_collision_counterexample:
  "[''ab''] \<noteq> [''ac'']
   \<and> sampleSerpArgs [''ac''] = (sampleSerpArgs [''ab''])\<lparr>sa_learnings := [''ac'']\<rparr>
   \<and> serpCacheKey (sampleSerpArgs [''ab'']) = serpCacheKey (sampleSerpArgs [''ac''])"
proof -
  have "serpCacheKey (sampleSerpArgs [''ab'']) = serpCacheKey (sampleSerpArgs [''ac''])"
    by code_simp
  then show ?thesis by (simp add: sampleSerpArgs_def serpArgs_def)
qed


section \<open>The semantic splitter: what a failing embedding gives\<close>


lemma embedAll_fails:
  "s \<in> set ss \<Longrightarrow> generateTextEmbedding env s = Inl e \<Longrightarrow> \<exists>e'. embedAll env ss = Inl e'"
  by (induction ss) (auto split: sum.splits)

text \<open>
  C8 (amended). When the text has more than one sentence and the embedding service
  throws for one of them, semanticChunking does not fail the caller: it returns the one
  chunk that is the whole text, unsplit. The structural splitter is what it returns only
  for a text of at most one sentence (for a chunk size above the overlap 20), and then no
  embedding is requested.
\<close>

theorem semanticChunking_fallback:
  assumes "trim text \<noteq> []"
  shows "(1 < length (sentencesOf text) \<and> s \<in> set (sentencesOf text) \<and>
          generateTextEmbedding env s = Inl e
            \<longrightarrow> semanticChunking env text None = [text]) \<and>
         (length (sentencesOf text) \<le> 1 \<and> 20 < getChunkSize env
            \<longrightarrow> semanticChunking env text None =
                  splitText \<lparr>chunkSize = getChunkSize env, chunkOverlap = 20,
                             separators = defaultSeparators\<rparr> (normalizeNewlines text))"
proof (intro conjI impI)
  assume a: "1 < length (sentencesOf text) \<and> s \<in> set (sentencesOf text) \<and>
          generateTextEmbedding env s = Inl e"
  then obtain e' where "embedAll env (sentencesOf text) = Inl e'"
    using embedAll_fails by blast
  then show "semanticChunking env text None = [text]"
    using a assms by (simp add: semanticChunking_def semanticSplitText_def)
next
  assume a: "length (sentencesOf text) \<le> 1 \<and> 20 < getChunkSize env"
  then show "semanticChunking env text None =
                  splitText \<lparr>chunkSize = getChunkSize env, chunkOverlap = 20,
                             separators = defaultSeparators\<rparr> (normalizeNewlines text)"
    using assms
    by (simp add: semanticChunking_def semanticSplitText_def newRecursiveCharacterTextSplitter_def)
qed

theorem semanticChunking_fallback_witness:
  "trim ''A.  B.'' \<noteq> [] \<and> sentencesOf ''A.  B.'' = [''A.'', ''B.'']
   \<and> generateTextEmbedding failingEnv ''A.'' = Inl (ProviderError ''embedding failed'')
   \<and> semanticChunking failingEnv ''A.  B.'' None = [''A.  B.'']"
proof -
  have t: "trim ''A.  B.'' \<noteq> []" by code_simp
  have s: "sentencesOf ''A.  B.'' = [''A.'', ''B.'']" by code_simp
  have g: "generateTextEmbedding failingEnv ''A.'' = Inl (ProviderError ''embedding failed'')"
    by (simp add: failingEnv_def)
  have "1 < length (sentencesOf ''A.  B.'') \<and> ''A.'' \<in> set (sentencesOf ''A.  B.'') \<and>
          generateTextEmbedding failingEnv ''A.'' = Inl (ProviderError ''embedding failed'')"
    using g unfolding s by simp
  with semanticChunking_fallback[OF t, of "''A.''" failingEnv "ProviderError ''embedding failed''"]
  have "semanticChunking failingEnv ''A.  B.'' None = [''A.  B.'']" by blast
  with t s g show ?thesis by (intro conjI)
qed

text \<open>
  C8 as stated fails: for the text of two sentences separated by two spaces and an
  embedding service that throws, semanticChunking returns the text unchanged, while the
  structural splitter with the same size and overlap returns it with the run of spaces
  collapsed.
\<close>

theorem semanticChunking_not_structural_counterexample:
  "generateTextEmbedding failingEnv ''A.'' = Inl (ProviderError ''embedding failed'')
   \<and> semanticChunking failingEnv ''A.  B.'' None = [''A.  B.'']
   \<and> splitText \<lparr>chunkSize = 140, chunkOverlap = 20, separators = defaultSeparators\<rparr> ''A.  B.''
       = [''A. B.'']"
proof -
  have 1: "semanticChunking failingEnv ''A.  B.'' None = [''A.  B.'']" by code_simp
  have 2: "splitText \<lparr>chunkSize = 140, chunkOverlap = 20, separators = defaultSeparators\<rparr> ''A.  B.''
       = [''A. B.'']" by code_simp
  show ?thesis using 1 2 by (simp add: failingEnv_def)
qed


section \<open>Feedback generation: the repair pass\<close>


lemma repairFailed_invalid: "\<not> validateAcademicOutput (analysis repairFailed)"
proof -
  have "\<not> validateAcademicOutput ''Failed to parse feedback response after repair.''"
    by code_simp
  then show ?thesis by (simp add: repairFailed_def)
qed

lemma finishFeedback_calls:
  "generationCalls (snd (finishFeedback opts r st)) = generationCalls st"
  by (simp add: finishFeedback_def)

lemma finishFeedback_value: "\<exists>r'. fst (finishFeedback opts r st) = Inr r'"
  by (simp add: finishFeedback_def)

text \<open>
  C5. When the first output of the generative service does not parse, generateFeedback
  sends exactly one further request, the repair prompt, which ends with that output, and
  it returns a value, never an exception. If the repaired output does not parse either,
  the value is the fixed response with no follow-up questions and the analysis
  Unable to generate valid feedback: the repair-failure response does not pass
  validateAcademicOutput and is replaced by it.
\<close>

theorem generateFeedback_repair:
  assumes "validateAcademicInput (fo_query opts)"
    and "feedbackCache st (feedbackCacheKey opts) = None"
    and "conductResearch env (fo_query opts) (fo_depth opts) = Inr researchAnalysis"
    and "callGemini env (length (generationCalls st)) (feedbackPrompt env opts) = Inr jsonText"
    and "parseFeedback env jsonText = None"
  shows "generationCalls (snd (generateFeedback env opts st))
           = generationCalls st @ [feedbackPrompt env opts, repairPreamble env @ jsonText] \<and>
         (\<exists>r. fst (generateFeedback env opts st) = Inr r) \<and>
         (\<forall>repaired.
            callGemini env (Suc (length (generationCalls st))) (repairPrompt env jsonText) = Inr repaired \<and>
            parseFeedback env repaired = None
            \<longrightarrow> fst (generateFeedback env opts st) = Inr invalidFeedback)"
proof -
  define st1 where "st1 = st\<lparr>generationCalls := generationCalls st @ [feedbackPrompt env opts]\<rparr>"
  define st2 where "st2 = st1\<lparr>generationCalls := generationCalls st1 @ [repairPrompt env jsonText]\<rparr>"
  define out where "out = callGemini env (Suc (length (generationCalls st))) (repairPrompt env jsonText)"
  have r1: "request env (feedbackPrompt env opts) st = (Inr jsonText, st1)"
    using assms(4) by (simp add: request_def st1_def)
  have r2: "request env (repairPrompt env jsonText) st1 = (out, st2)"
    by (simp add: request_def st1_def st2_def out_def)
  have calls2: "generationCalls st2
      = generationCalls st @ [feedbackPrompt env opts, repairPreamble env @ jsonText]"
    by (simp add: st2_def st1_def repairPrompt_def)
  have g: "generateFeedback env opts st =
      (case out of
         Inl e \<Rightarrow> (Inr apiError, st2)
       | Inr repaired \<Rightarrow>
           finishFeedback opts
             (case parseFeedback env repaired of Some parsed \<Rightarrow> parsed | None \<Rightarrow> repairFailed) st2)"
    using assms(1,2,3,5) by (simp add: generateFeedback_def r1 r2)
  show ?thesis
  proof (cases out)
    case (Inl e)
    then have "generateFeedback env opts st = (Inr apiError, st2)" using g by simp
    then show ?thesis using calls2 Inl by (simp add: out_def)
  next
    case (Inr repaired)
    let ?fr = "case parseFeedback env repaired of Some parsed \<Rightarrow> parsed | None \<Rightarrow> repairFailed"
    have gf: "generateFeedback env opts st = finishFeedback opts ?fr st2" using g Inr by simp
    have c: "generationCalls (snd (generateFeedback env opts st))
           = generationCalls st @ [feedbackPrompt env opts, repairPreamble env @ jsonText]"
      unfolding gf finishFeedback_calls by (rule calls2)
    have v: "\<exists>r. fst (generateFeedback env opts st) = Inr r"
      unfolding gf by (rule finishFeedback_value)
    have d: "\<forall>repaired'.
            callGemini env (Suc (length (generationCalls st))) (repairPrompt env jsonText) = Inr repaired' \<and>
            parseFeedback env repaired' = None
            \<longrightarrow> fst (generateFeedback env opts st) = Inr invalidFeedback"
    proof (intro allI impI)
      fix repaired'
      assume a: "callGemini env (Suc (length (generationCalls st))) (repairPrompt env jsonText) = Inr repaired' \<and>
            parseFeedback env repaired' = None"
      then have "repaired' = repaired" using Inr by (simp add: out_def)
      then have "?fr = repairFailed" using a by simp
      then show "fst (generateFeedback env opts st) = Inr invalidFeedback"
        unfolding gf using repairFailed_invalid by (simp add: finishFeedback_def)
    qed
    from c v d show ?thesis by (intro conjI)
  qed
qed

theorem generateFeedback_repair_witness:
  "validateAcademicInput (fo_query sampleFeedbackOptions)
   \<and> generationCalls (snd (generateFeedback sampleFeedbackEnv sampleFeedbackOptions emptyFeedbackState))
       = [''Return ONLY JSON: solid state batteries'', ''Repair it. Previous: not json'']
   \<and> fst (generateFeedback sampleFeedbackEnv sampleFeedbackOptions emptyFeedbackState)
       = Inr \<lparr>followUpQuestions = [], analysis = ''Unable to generate valid feedback'',
              confidenceScore = None\<rparr>"
proof -
  have 1: "validateAcademicInput (fo_query sampleFeedbackOptions)" by code_simp
  have 2: "feedbackCache emptyFeedbackState (feedbackCacheKey sampleFeedbackOptions) = None"
    by (simp add: emptyFeedbackState_def)
  have 3: "conductResearch sampleFeedbackEnv (fo_query sampleFeedbackOptions)
             (fo_depth sampleFeedbackOptions) = Inr ''''"
    by (simp add: sampleFeedbackEnv_def)
  have 4: "callGemini sampleFeedbackEnv (length (generationCalls emptyFeedbackState))
             (feedbackPrompt sampleFeedbackEnv sampleFeedbackOptions) = Inr ''not json''"
    by (simp add: sampleFeedbackEnv_def)
  have 5: "parseFeedback sampleFeedbackEnv ''not json'' = None"
    by (simp add: parseFeedback_def sampleFeedbackEnv_def)
  have 6: "callGemini sampleFeedbackEnv (Suc (length (generationCalls emptyFeedbackState)))
             (repairPrompt sampleFeedbackEnv ''not json'') = Inr ''not json''"
    by (simp add: sampleFeedbackEnv_def)
  note th = generateFeedback_repair[OF 1 2 3 4 5]
  have c: "generationCalls (snd (generateFeedback sampleFeedbackEnv sampleFeedbackOptions emptyFeedbackState))
       = [''Return ONLY JSON: solid state batteries'', ''Repair it. Previous: not json'']"
    using th by (simp add: sampleFeedbackEnv_def sampleFeedbackOptions_def emptyFeedbackState_def)
  have "fst (generateFeedback sampleFeedbackEnv sampleFeedbackOptions emptyFeedbackState)
       = Inr invalidFeedback"
    using th 5 6 by blast
  then have v: "fst (generateFeedback sampleFeedbackEnv sampleFeedbackOptions emptyFeedbackState)
       = Inr \<lparr>followUpQuestions = [], analysis = ''Unable to generate valid feedback'',
              confidenceScore = None\<rparr>"
    by (simp add: invalidFeedback_def)
  show ?thesis using 1 c v by (intro conjI)
qed


section \<open>Proofs: the research controller (deepResearch)\<close>


subsection \<open>Runs that keep the store and the budget\<close>

lemma runOK_I:
  assumes "store st' = store st @ ext" and "events st' = events st @ new"
    and "list_all (descends path depth breadth) new"
  shows "runOK path depth breadth st st'"
  using assms by (simp add: runOK_def)

lemma runOK_E:
  assumes "runOK path depth breadth st st'"
  obtains ext new where "store st' = store st @ ext" and "events st' = events st @ new"
    and "list_all (descends path depth breadth) new"
proof -
  from assms have s: "take (length (store st)) (store st') = store st"
    and e: "take (length (events st)) (events st') = events st"
    and d: "list_all (descends path depth breadth) (drop (length (events st)) (events st'))"
    by (auto simp: runOK_def)
  have "store st' = store st @ drop (length (store st)) (store st')"
    using s by (metis append_take_drop_id)
  moreover have "events st' = events st @ drop (length (events st)) (events st')"
    using e by (metis append_take_drop_id)
  ultimately show ?thesis using d that by blast
qed

lemma runOK_refl: "runOK path depth breadth st st"
  by (simp add: runOK_def)

lemma runOK_trans:
  assumes "runOK path depth breadth st st1" and "runOK path depth breadth st1 st2"
  shows "runOK path depth breadth st st2"
proof -
  from assms(1) obtain e1 n1 where 1: "store st1 = store st @ e1" "events st1 = events st @ n1"
    "list_all (descends path depth breadth) n1" by (rule runOK_E)
  from assms(2) obtain e2 n2 where 2: "store st2 = store st1 @ e2" "events st2 = events st1 @ n2"
    "list_all (descends path depth breadth) n2" by (rule runOK_E)
  show ?thesis
    by (rule runOK_I[of _ _ "e1 @ e2" "n1 @ n2"]) (simp_all add: 1 2)
qed

lemma runOK_alloc: "runOK path depth breadth st (snd (alloc xs st))"
  by (rule runOK_I[of _ _ "[xs]" "[]"]) (simp_all add: alloc_def)

lemma runOK_emit: "descends path depth breadth ev \<Longrightarrow> runOK path depth breadth st (emit ev st)"
  by (rule runOK_I[of _ _ "[]" "[ev]"]) (simp_all add: emit_def)

lemma descends_self: "descends path depth breadth (Invoked path depth breadth)"
  by (simp add: descends_def)

lemma descends_child:
  assumes "descends (path @ [i]) (depth - 1) (newBreadthOf breadth) ev" and "0 < depth - 1"
  shows "descends path depth breadth ev"
proof (cases ev)
  case (Invoked q d b)
  have all: "take (length (path @ [i])) q = path @ [i] \<and>
          d = depth - 1 - int (length q - length (path @ [i])) \<and>
          b = (newBreadthOf ^^ (length q - length (path @ [i]))) (newBreadthOf breadth) \<and>
          (length (path @ [i]) < length q \<longrightarrow>
             1 \<le> d \<and> int (length q - length (path @ [i])) < depth - 1)"
    using assms(1) unfolding descends_def Invoked event.case .
  have t: "take (Suc (length path)) q = path @ [i]" using all by simp
  have dq: "d = depth - 1 - int (length q - Suc (length path))" using all by simp
  have bq: "b = (newBreadthOf ^^ (length q - Suc (length path))) (newBreadthOf breadth)"
    using all by simp
  have strict: "Suc (length path) < length q \<longrightarrow> 1 \<le> d" using all by auto
  have len: "Suc (length path) \<le> length q"
  proof (rule ccontr)
    assume "\<not> Suc (length path) \<le> length q"
    then have "length (take (Suc (length path)) q) < Suc (length path)" by simp
    then show False using t by simp
  qed
  then obtain k where k: "length q - length path = Suc k" and k': "length q - Suc (length path) = k"
    by (metis Suc_diff_le diff_Suc_Suc)
  have "take (length path) q = take (length path) (take (Suc (length path)) q)"
    by (simp add: min_def)
  then have 1: "take (length path) q = path" using t by simp
  have 2: "d = depth - int (length q - length path)" using dq k k' by simp
  have 3: "b = (newBreadthOf ^^ (length q - length path)) breadth"
    using bq k k' by (simp add: funpow_swap1)
  have 4: "1 \<le> d"
  proof (cases "k = 0")
    case True
    then show ?thesis using dq k' assms(2) by simp
  next
    case False
    then show ?thesis using strict k' len by simp
  qed
  have 5: "int (length q - length path) < depth" using 2 4 by simp
  show ?thesis unfolding descends_def Invoked event.case using 1 2 3 4 5 by blast
qed (simp_all add: descends_def)

lemma runOK_child:
  assumes "runOK (path @ [i]) (depth - 1) (newBreadthOf breadth) st st'" and "0 < depth - 1"
  shows "runOK path depth breadth st st'"
proof -
  from assms(1) obtain ext new where 1: "store st' = store st @ ext" "events st' = events st @ new"
    "list_all (descends (path @ [i]) (depth - 1) (newBreadthOf breadth)) new" by (rule runOK_E)
  have "list_all (descends path depth breadth) new"
    using 1(3) descends_child[OF _ assms(2)] by (auto simp: list_all_iff)
  then show ?thesis using 1(1,2) by (intro runOK_I)
qed

lemma descends_GeminiRequested: "descends path depth breadth (GeminiRequested p i s)"
  and descends_SerpQueriesRequested: "descends path depth breadth (SerpQueriesRequested p a)"
  and descends_OnProgress: "descends path depth breadth (OnProgress pr)"
  and descends_ReportProgress: "descends path depth breadth (ReportProgress pr)"
  by (simp_all add: descends_def)

subsection \<open>The search is disabled: no learnings from processSerpResult\<close>

lemma drain_idle: "inFlight st = [] \<Longrightarrow> drain items limit worker sched st = st"
  by (cases sched) simp_all

lemma runWithConcurrency_empty:
  "promise (runWithConcurrency [] limit worker sched) = Resolved []"
proof -
  let ?s = "\<lparr>results = [], inFlight = [], index = 0, promise = Resolved []\<rparr>"
  have n: "nextStep [] limit worker (initialPool []) = ?s"
    by (simp add: nextStep_def initialPool_def settle_def)
  have d: "drain [] limit worker sched ?s = ?s"
    by (rule drain_idle) simp
  show ?thesis
    by (simp add: runWithConcurrency_def n d)
qed

lemma splitText_empty: "splitText sp [] = []"
  by (simp add: splitText_def)

lemma processSerpResult_disabled:
  "processSerpResult env query \<lparr>sr_data = Some disabledSearch, sr_metadata = m\<rparr> n = Inr []"
proof -
  obtain sp where sp: "createResearchSplitter = Inr sp"
    by (simp add: createResearchSplitter_def newRecursiveCharacterTextSplitter_def)
  have b: "generateBatchWithTools env [] = Inr []"
    by (simp add: generateBatchWithTools_def runWithConcurrency_empty)
  show ?thesis
    by (simp add: processSerpResult_def disabledSearch_def compact_def sp splitText_empty b)
qed


subsection \<open>The worker, the loop over the workers, and the controller\<close>

lemma workerStart_cases:
  "workerStart env path learnings visitedUrls i serpQuery st =
        (Inl emptyProcessResult,
         emit (GeminiRequested path i
                 (generateGeminiPrompt env (sq_query serpQuery) (sq_researchGoal serpQuery)
                    (deref st learnings))) st)
   \<or> (\<exists>geminiResult. workerStart env path learnings visitedUrls i serpQuery st =
        (Inr geminiResult,
         emit (GeminiRequested path i
                 (generateGeminiPrompt env (sq_query serpQuery) (sq_researchGoal serpQuery)
                    (deref st learnings))) st))"
  by (simp add: workerStart_def Let_def split: sum.splits)

lemma noFindings_empty: "noFindings emptyProcessResult"
  by (simp add: noFindings_def emptyProcessResult_def)

lemma runOK_finallyReport: "runOK path depth breadth st (snd (finallyReport progress st))"
  by (simp add: finallyReport_def Let_def runOK_emit descends_ReportProgress)

lemma worker_inv:
  assumes child: "\<And>serpQuery al au st4. 0 < dro_depth opts - 1 \<Longrightarrow>
      researchOK env (childOptions opts serpQuery al au) (path @ [i]) st4"
  shows "runOK path (dro_depth opts) (dro_breadth opts) st
           (snd (snd (limitedProcessResult env opts path learnings visitedUrls i serpQuery progress st)))
         \<and> noFindings (fst (limitedProcessResult env opts path learnings visitedUrls i serpQuery progress st))"
proof -
  let ?d = "dro_depth opts" and ?b = "dro_breadth opts"
  let ?st1 = "emit (GeminiRequested path i
                 (generateGeminiPrompt env (sq_query serpQuery) (sq_researchGoal serpQuery)
                    (deref st learnings))) st"
  have r1: "runOK path ?d ?b st ?st1" by (rule runOK_emit[OF descends_GeminiRequested])
  have ps: "processSerpResult env (sq_query serpQuery)
                  \<lparr>sr_data = Some disabledSearch, sr_metadata = Some (True, [])\<rparr> 3 = Inr []"
    by (rule processSerpResult_disabled)
  have nu: "compact (map (\<lambda>item. case fr_url item of None \<Rightarrow> [] | Some u \<Rightarrow> u) disabledSearch) = []"
    by (simp add: compact_def disabledSearch_def)
  have "workerStart env path learnings visitedUrls i serpQuery st = (Inl emptyProcessResult, ?st1)
      \<or> (\<exists>geminiResult. workerStart env path learnings visitedUrls i serpQuery st
            = (Inr geminiResult, ?st1))"
    by (rule workerStart_cases)
  then show ?thesis
  proof (elim disjE exE)
    assume early: "workerStart env path learnings visitedUrls i serpQuery st
        = (Inl emptyProcessResult, ?st1)"
    then have "limitedProcessResult env opts path learnings visitedUrls i serpQuery progress st
        = (emptyProcessResult, progress, ?st1)"
      by (subst limitedProcessResult.simps) simp
    then show ?thesis using r1 noFindings_empty by simp
  next
    fix geminiResult
    assume go: "workerStart env path learnings visitedUrls i serpQuery st
        = (Inr geminiResult, ?st1)"
    obtain allLearnings st2 where a1: "alloc (deref ?st1 learnings) ?st1 = (allLearnings, st2)"
      by (cases "alloc (deref ?st1 learnings) ?st1")
    obtain allUrls st3 where a2: "alloc (deref st2 visitedUrls) st2 = (allUrls, st3)"
      by (cases "alloc (deref st2 visitedUrls) st2")
    have r2: "runOK path ?d ?b ?st1 st2" using runOK_alloc[of path ?d ?b ?st1] a1 by (metis snd_conv)
    have r3: "runOK path ?d ?b st2 st3" using runOK_alloc[of path ?d ?b st2] a2 by (metis snd_conv)
    have r13: "runOK path ?d ?b st st3" using r1 r2 r3 runOK_trans by blast
    show ?thesis
    proof (cases "0 < ?d - 1")
      case False
      obtain p' st' where f: "finallyReport progress st3 = (p', st')"
        by (cases "finallyReport progress st3")
      have "limitedProcessResult env opts path learnings visitedUrls i serpQuery progress st
          = (leafResult geminiResult [] [], p', st')"
        using False by (subst limitedProcessResult.simps) (simp add: go ps nu a1 a2 f)
      moreover have "runOK path ?d ?b st3 st'"
        using runOK_finallyReport[of path ?d ?b st3 progress] f by simp
      moreover have "noFindings (leafResult geminiResult [] [])"
        by (simp add: noFindings_def leafResult_def)
      ultimately show ?thesis using r13 runOK_trans by fastforce
    next
      case True
      let ?p1 = "deeperProgress progress (?d - 1) (newBreadthOf ?b) (sq_query serpQuery)"
      let ?st4 = "if dro_onProgress opts then emit (OnProgress ?p1) st3 else st3"
      let ?co = "childOptions opts serpQuery allLearnings allUrls"
      have r4: "runOK path ?d ?b st3 ?st4"
        by (simp add: runOK_refl runOK_emit descends_OnProgress)
      obtain res st5 where dr: "deepResearch env ?co (path @ [i]) ?st4 = (res, st5)"
        by (cases "deepResearch env ?co (path @ [i]) ?st4")
      have ok: "researchOK env ?co (path @ [i]) ?st4" by (rule child[OF True])
      have "runOK (path @ [i]) (?d - 1) (newBreadthOf ?b) ?st4 st5"
        using ok dr by (simp add: researchOK_def childOptions_def)
      then have r5: "runOK path ?d ?b ?st4 st5" using True by (rule runOK_child)
      obtain p' st' where f: "finallyReport ?p1 st5 = (p', st')"
        by (cases "finallyReport ?p1 st5")
      have r6: "runOK path ?d ?b st5 st'"
        using runOK_finallyReport[of path ?d ?b st5 ?p1] f by simp
      have rall: "runOK path ?d ?b st st'"
        using r13 r4 r5 r6 runOK_trans by blast
      show ?thesis
      proof (cases res)
        case (Inl e)
        have "limitedProcessResult env opts path learnings visitedUrls i serpQuery progress st
            = (emptyProcessResult, p', st')"
          using True by (subst limitedProcessResult.simps) (simp add: go ps nu a1 a2 dr Inl f Let_def)
        then show ?thesis using rall noFindings_empty by simp
      next
        case (Inr deeper)
        have "limitedProcessResult env opts path learnings visitedUrls i serpQuery progress st
            = (fromDeeper deeper, p', st')"
          using True by (subst limitedProcessResult.simps) (simp add: go ps nu a1 a2 dr Inr f Let_def)
        moreover have "noFindings (fromDeeper deeper)"
          using ok dr Inr by (simp add: researchOK_def noFindings_def fromDeeper_def)
        ultimately show ?thesis using rall by simp
      qed
    qed
  qed
qed

lemma workers_inv:
  assumes child: "\<And>serpQuery al au i st4. 0 < dro_depth opts - 1 \<Longrightarrow>
      researchOK env (childOptions opts serpQuery al au) (path @ [i]) st4"
  shows "runOK path (dro_depth opts) (dro_breadth opts) st
           (snd (snd (runWorkers env opts path learnings visitedUrls i qs progress st)))
         \<and> list_all noFindings (fst (runWorkers env opts path learnings visitedUrls i qs progress st))"
proof (induction qs arbitrary: i progress st)
  case Nil
  show ?case by (simp add: runOK_refl)
next
  case (Cons q qs)
  obtain r p1 st1 where w: "limitedProcessResult env opts path learnings visitedUrls i q progress st
      = (r, p1, st1)"
    by (cases "limitedProcessResult env opts path learnings visitedUrls i q progress st") auto
  obtain rs p2 st2 where ws: "runWorkers env opts path learnings visitedUrls (Suc i) qs p1 st1
      = (rs, p2, st2)"
    by (cases "runWorkers env opts path learnings visitedUrls (Suc i) qs p1 st1") auto
  have "runOK path (dro_depth opts) (dro_breadth opts) st
           (snd (snd (limitedProcessResult env opts path learnings visitedUrls i q progress st)))
         \<and> noFindings (fst (limitedProcessResult env opts path learnings visitedUrls i q progress st))"
    by (rule worker_inv[OF child])
  then have 1: "runOK path (dro_depth opts) (dro_breadth opts) st st1 \<and> noFindings r"
    using w by simp
  have "runOK path (dro_depth opts) (dro_breadth opts) st1
           (snd (snd (runWorkers env opts path learnings visitedUrls (Suc i) qs p1 st1)))
         \<and> list_all noFindings (fst (runWorkers env opts path learnings visitedUrls (Suc i) qs p1 st1))"
    by (rule Cons.IH)
  then have 2: "runOK path (dro_depth opts) (dro_breadth opts) st1 st2 \<and> list_all noFindings rs"
    using ws by simp
  have "runWorkers env opts path learnings visitedUrls i (q # qs) progress st = (r # rs, p2, st2)"
    by (simp add: w ws)
  then show ?case using 1 2 runOK_trans by fastforce
qed

lemma aggregate_noFindings:
  assumes "list_all noFindings rs"
  shows "rr_learnings (aggregate rs) = [] \<and> rr_visitedUrls (aggregate rs) = []"
proof -
  have "concat (map pr_learnings rs) = []" and "concat (map pr_visitedUrls rs) = []"
    using assms by (auto simp: list_all_iff noFindings_def)
  then show ?thesis by (simp add: aggregate_def Let_def compact_def)
qed

lemma deepResearch_step:
  assumes child: "\<And>serpQuery al au i st4. 0 < dro_depth opts - 1 \<Longrightarrow>
      researchOK env (childOptions opts serpQuery al au) (path @ [i]) st4"
  shows "researchOK env opts path st"
proof -
  let ?d = "dro_depth opts" and ?b = "dro_breadth opts"
  let ?st0 = "emit (Invoked path ?d ?b) st"
  obtain visitedUrls st1 where a1:
    "alloc (case dro_visitedUrls opts of None \<Rightarrow> [] | Some a \<Rightarrow> deref st a) ?st0 = (visitedUrls, st1)"
    by (cases "alloc (case dro_visitedUrls opts of None \<Rightarrow> [] | Some a \<Rightarrow> deref st a) ?st0")
  obtain learnings st2 where a2:
    "alloc (case dro_learnings opts of None \<Rightarrow> [] | Some a \<Rightarrow> deref st a) st1 = (learnings, st2)"
    by (cases "alloc (case dro_learnings opts of None \<Rightarrow> [] | Some a \<Rightarrow> deref st a) st1")
  have r0: "runOK path ?d ?b st ?st0" by (rule runOK_emit[OF descends_self])
  have r1: "runOK path ?d ?b ?st0 st1" using runOK_alloc[of path ?d ?b ?st0] a1 by (metis snd_conv)
  have r2: "runOK path ?d ?b st1 st2" using runOK_alloc[of path ?d ?b st1] a2 by (metis snd_conv)
  have r02: "runOK path ?d ?b st st2" using r0 r1 r2 runOK_trans by blast
  have e: "rr_learnings emptyResearchResult = [] \<and> rr_visitedUrls emptyResearchResult = []"
    by (simp add: emptyResearchResult_def)
  show ?thesis
  proof (cases "?d \<le> 0 \<or> 20 < length (deref st2 visitedUrls)")
    case True
    then have "deepResearch env opts path st = (Inr emptyResearchResult, st2)"
      by (subst deepResearch.simps) (auto simp: a1 a2)
    then show ?thesis using r02 e by (simp add: researchOK_def)
  next
    case False
    let ?args = "\<lparr>sa_query = dro_query opts, sa_numQueries = dro_breadth opts,
                      sa_learnings = deref st2 learnings, sa_researchGoal = dro_researchGoal opts,
                      sa_initialQuery = Some (dro_initialQuery opts), sa_depth = dro_depth opts,
                      sa_breadth = dro_breadth opts\<rparr>"
    let ?st3 = "emit (SerpQueriesRequested path ?args) st2"
    have r3: "runOK path ?d ?b st2 ?st3" by (rule runOK_emit[OF descends_SerpQueriesRequested])
    show ?thesis
    proof (cases "pLimit (ConcurrencyLimit env)")
      case (Inl err)
      have "deepResearch env opts path st = (Inl err, ?st3)"
        using False by (subst deepResearch.simps) (simp add: a1 a2 Inl Let_def)
      then show ?thesis using r02 r3 runOK_trans by (fastforce simp: researchOK_def)
    next
      case (Inr u)
      obtain rs p st4 where ws: "runWorkers env opts path learnings visitedUrls 0
            (generateSerpQueries env path ?args) (initialProgress opts) ?st3 = (rs, p, st4)"
        by (cases "runWorkers env opts path learnings visitedUrls 0
            (generateSerpQueries env path ?args) (initialProgress opts) ?st3") auto
      have "runOK path ?d ?b ?st3
           (snd (snd (runWorkers env opts path learnings visitedUrls 0
            (generateSerpQueries env path ?args) (initialProgress opts) ?st3)))
         \<and> list_all noFindings (fst (runWorkers env opts path learnings visitedUrls 0
            (generateSerpQueries env path ?args) (initialProgress opts) ?st3))"
        by (rule workers_inv[OF child])
      then have w: "runOK path ?d ?b ?st3 st4 \<and> list_all noFindings rs"
        using ws by simp
      have "deepResearch env opts path st = (Inr (aggregate rs), st4)"
        using False by (subst deepResearch.simps) (simp add: a1 a2 Inr Let_def ws)
      moreover have "runOK path ?d ?b st st4" using r02 r3 w runOK_trans by blast
      ultimately show ?thesis using aggregate_noFindings[of rs] w by (simp add: researchOK_def)
    qed
  qed
qed

lemma deepResearch_inv: "researchOK env opts path st"
proof (induction "nat (dro_depth opts)" arbitrary: opts path st rule: less_induct)
  case less
  show ?case
  proof (rule deepResearch_step)
    fix serpQuery al au i st4
    assume "0 < dro_depth opts - 1"
    then have "nat (dro_depth (childOptions opts serpQuery al au)) < nat (dro_depth opts)"
      by (simp add: childOptions_def)
    then show "researchOK env (childOptions opts serpQuery al au) (path @ [i]) st4"
      by (rule less)
  qed
qed


text \<open>
  C2. With a depth of at most zero, or with more than twenty visited sources, deepResearch
  returns the empty result (no learnings, no visited sources), not an error, and the only
  event of the run is the invocation itself: no sub-queries are requested and no worker
  is started.
\<close>

theorem deepResearch_terminal:
  assumes "dro_depth opts \<le> 0 \<or>
           20 < length (case dro_visitedUrls opts of None \<Rightarrow> [] | Some a \<Rightarrow> deref st a)"
  shows "fst (deepResearch env opts path st) = Inr emptyResearchResult \<and>
         rr_learnings emptyResearchResult = [] \<and> rr_visitedUrls emptyResearchResult = [] \<and>
         events (snd (deepResearch env opts path st))
           = events st @ [Invoked path (dro_depth opts) (dro_breadth opts)]"
proof -
  let ?v = "case dro_visitedUrls opts of None \<Rightarrow> [] | Some a \<Rightarrow> deref st a"
  let ?l = "case dro_learnings opts of None \<Rightarrow> [] | Some a \<Rightarrow> deref st a"
  let ?st0 = "emit (Invoked path (dro_depth opts) (dro_breadth opts)) st"
  let ?st2 = "?st0\<lparr>store := store st @ [?v, ?l]\<rparr>"
  have a1: "alloc ?v ?st0 = (length (store st), ?st0\<lparr>store := store st @ [?v]\<rparr>)"
    by (simp add: alloc_def emit_def)
  have a2: "alloc ?l (?st0\<lparr>store := store st @ [?v]\<rparr>) = (Suc (length (store st)), ?st2)"
    by (simp add: alloc_def emit_def)
  have d: "deref ?st2 (length (store st)) = ?v"
    by (simp add: deref_def emit_def nth_append)
  have "deepResearch env opts path st = (Inr emptyResearchResult, ?st2)"
    using assms by (subst deepResearch.simps) (auto simp: a1 a2 d)
  then show ?thesis by (simp add: emptyResearchResult_def emit_def)
qed

theorem deepResearch_terminal_witness:
  "dro_depth (sampleOptions 0 3) \<le> 0 \<and>
   deepResearch sampleResearchEnv (sampleOptions 0 3) [] sampleState
     = (Inr emptyResearchResult,
        \<lparr>store = [[''known''], [], [], [''known'']], events = [Invoked [] 0 3]\<rparr>)"
proof -
  have d: "dro_depth (sampleOptions 0 3) \<le> 0" by (simp add: sampleOptions_def)
  have v: "deepResearch sampleResearchEnv (sampleOptions 0 3) [] sampleState
     = (Inr emptyResearchResult,
        \<lparr>store = [[''known''], [], [], [''known'']], events = [Invoked [] 0 3]\<rparr>)"
    by code_simp
  have "fst (deepResearch sampleResearchEnv (sampleOptions 0 3) [] sampleState)
      = Inr emptyResearchResult"
    using deepResearch_terminal[of "sampleOptions 0 3" sampleState sampleResearchEnv "[]"] d
    by blast
  with d v show ?thesis by (intro conjI)
qed

text \<open>
  C3. At every recursive step the child task has the depth of its parent less one and the
  breadth of its parent halved upwards. So every invocation of a run lies some number of
  levels below the first one, with the first depth less that number and the first breadth
  halved that many times; below the first invocation the depth is at least one, and the
  nesting stays below the first depth.
\<close>

theorem deepResearch_budget:
  "dro_depth (childOptions opts serpQuery allLearnings allUrls) = dro_depth opts - 1 \<and>
   dro_breadth (childOptions opts serpQuery allLearnings allUrls)
     = \<lceil>(of_int (dro_breadth opts) :: rat) / 2\<rceil> \<and>
   list_all (descends path (dro_depth opts) (dro_breadth opts))
     (drop (length (events st)) (events (snd (deepResearch env opts path st))))"
proof -
  have "researchOK env opts path st" by (rule deepResearch_inv)
  then have "list_all (descends path (dro_depth opts) (dro_breadth opts))
     (drop (length (events st)) (events (snd (deepResearch env opts path st))))"
    by (simp add: researchOK_def runOK_def)
  then show ?thesis by (simp add: childOptions_def newBreadthOf_def)
qed


theorem deepResearch_budget_witness:
  "Invoked [0] 1 2 \<in> set (events (snd (deepResearch sampleResearchEnv (sampleOptions 2 3) [] sampleState)))
   \<and> descends [] 2 3 (Invoked [0] 1 2)
   \<and> dro_depth (childOptions (sampleOptions 2 3) \<lparr>sq_query = ''q.0'', sq_researchGoal = ''g''\<rparr> 2 3) = 1
   \<and> dro_breadth (childOptions (sampleOptions 2 3) \<lparr>sq_query = ''q.0'', sq_researchGoal = ''g''\<rparr> 2 3) = 2"
proof -
  let ?run = "deepResearch sampleResearchEnv (sampleOptions 2 3) [] sampleState"
  let ?q = "\<lparr>sq_query = ''q.0'', sq_researchGoal = ''g''\<rparr>"
  have m: "Invoked [0] 1 2 \<in> set (events (snd ?run))" by code_simp
  have e: "events sampleState = []" by (simp add: sampleState_def)
  have o: "dro_depth (sampleOptions 2 3) = 2" "dro_breadth (sampleOptions 2 3) = 3"
    by (simp_all add: sampleOptions_def)
  note th = deepResearch_budget[of "sampleOptions 2 3" ?q 2 3 "[]" sampleState sampleResearchEnv]
  have "list_all (descends [] 2 3) (events (snd ?run))"
    using th unfolding o e by simp
  then have d: "descends [] 2 3 (Invoked [0] 1 2)" using m by (simp add: list_all_iff)
  have c1: "dro_depth (childOptions (sampleOptions 2 3) ?q 2 3) = 1"
    using th unfolding o by simp
  have "\<lceil>(of_int 3 :: rat) / 2\<rceil> = 2" by (simp add: ceiling_eq_iff)
  then have c2: "dro_breadth (childOptions (sampleOptions 2 3) ?q 2 3) = 2"
    using th unfolding o by simp
  show ?thesis using m d c1 c2 by (intro conjI)
qed



text \<open>
  C10. deepResearch never changes an array that exists when it is called, so the
  learnings and visited sources the caller passed hold after the call what they held
  before: the controller copies them on entry and from then on only creates arrays.
\<close>

theorem deepResearch_frame:
  "take (length (store st)) (store (snd (deepResearch env opts path st))) = store st \<and>
   (\<forall>a < length (store st). deref (snd (deepResearch env opts path st)) a = deref st a)"
proof -
  have "researchOK env opts path st" by (rule deepResearch_inv)
  then have t: "take (length (store st)) (store (snd (deepResearch env opts path st))) = store st"
    and l: "length (store st) \<le> length (store (snd (deepResearch env opts path st)))"
    by (simp_all add: researchOK_def runOK_def)
  have "\<forall>a < length (store st). deref (snd (deepResearch env opts path st)) a = deref st a"
  proof (intro allI impI)
    fix a assume a: "a < length (store st)"
    have "store (snd (deepResearch env opts path st)) ! a
        = take (length (store st)) (store (snd (deepResearch env opts path st))) ! a"
      using a by simp
    then show "deref (snd (deepResearch env opts path st)) a = deref st a"
      using a l t by (simp add: deref_def)
  qed
  with t show ?thesis by (intro conjI)
qed

theorem deepResearch_frame_witness:
  "dro_learnings (sampleOptions 2 3) = Some 0 \<and> dro_visitedUrls (sampleOptions 2 3) = Some 1 \<and>
   deref sampleState 0 = [''known''] \<and> deref sampleState 1 = [] \<and>
   length (store (snd (deepResearch sampleResearchEnv (sampleOptions 2 3) [] sampleState))) = 28 \<and>
   deref (snd (deepResearch sampleResearchEnv (sampleOptions 2 3) [] sampleState)) 0 = [''known''] \<and>
   deref (snd (deepResearch sampleResearchEnv (sampleOptions 2 3) [] sampleState)) 1 = []"
proof -
  let ?st' = "snd (deepResearch sampleResearchEnv (sampleOptions 2 3) [] sampleState)"
  have o: "dro_learnings (sampleOptions 2 3) = Some 0" "dro_visitedUrls (sampleOptions 2 3) = Some 1"
    by (simp_all add: sampleOptions_def)
  have s: "deref sampleState 0 = [''known'']" "deref sampleState 1 = []"
    by (simp_all add: deref_def sampleState_def)
  have n: "length (store ?st') = 28" by code_simp
  have len: "length (store sampleState) = 2" by (simp add: sampleState_def)
  have "\<forall>a < length (store sampleState). deref ?st' a = deref sampleState a"
    using deepResearch_frame[of sampleState sampleResearchEnv "sampleOptions 2 3" "[]"] by blast
  then have d: "deref ?st' 0 = [''known'']" "deref ?st' 1 = []"
    using s len by simp_all
  show ?thesis using o s n d by (intro conjI)
qed


end
